theory Spec2Isabelle
  imports Main "HOL-Library.AList"
begin

section \<open>Strings\<close>

text \<open>
  Python strings are modelled as \<^typ>\<open>string\<close>, one \<^typ>\<open>char\<close> per code point, for the
  code points below 256. \<open>isspace\<close> is Python's \<^verbatim>\<open>str.isspace\<close> on that range and
  \<open>strip\<close> is \<^verbatim>\<open>str.strip()\<close> without argument.
\<close>

definition isspace :: "char \<Rightarrow> bool" where
  "isspace c = (of_char c \<in> {9, 10, 11, 12, 13, 28, 29, 30, 31, 32, 133, 160 :: nat})"

definition strip :: "string \<Rightarrow> string" where
  "strip s = rev (dropWhile isspace (rev (dropWhile isspace s)))"

text \<open>\<^verbatim>\<open>title.strip() or "Untitled"\<close>: the empty string is falsy.\<close>

definition title_or_default :: "string \<Rightarrow> string" where
  "title_or_default t = (if strip t \<noteq> [] then strip t else ''Untitled'')"

section \<open>The workspace\<close>

text \<open>
  A page is the dictionary with the four entries that \<^verbatim>\<open>add_page\<close> and \<^verbatim>\<open>load_data\<close>
  create. A database row and the workspace are Python dictionaries, which keep insertion
  order: association lists, written with \<^const>\<open>AList.update\<close> (an existing key keeps its
  place, a new key goes to the end) and read with \<^const>\<open>map_of\<close>.
\<close>

type_synonym row = "(string \<times> string) list"

record page =
  title :: string
  content :: string
  children :: "string list"
  database :: "row list"

type_synonym workspace = "(string \<times> page) list"

datatype py_error = KeyError | IndexError | JSONDecodeError | UnicodeDecodeError

text \<open>
  What \<^verbatim>\<open>pages.json\<close> holds, by what \<^verbatim>\<open>open(..., encoding="utf-8")\<close> and
  \<^verbatim>\<open>json.load\<close> make of it: bytes that are not UTF-8, text that is not JSON, or
  the serialisation of a workspace.
\<close>

datatype file_content = NotUtf8 | NotJson | Json workspace

fun json_load :: "file_content \<Rightarrow> py_error + workspace" where
  "json_load NotUtf8 = Inl UnicodeDecodeError"
| "json_load NotJson = Inl JSONDecodeError"
| "json_load (Json d) = Inr d"

text \<open>
  The process state: the global \<^verbatim>\<open>DATA\<close> and the file \<^verbatim>\<open>DATA_FILE\<close>
  (\<open>None\<close> when it does not exist).
\<close>

record state =
  DATA :: workspace
  DATA_FILE :: "file_content option"

definition save_data :: "state \<Rightarrow> state" where
  "save_data s = s\<lparr>DATA_FILE := Some (Json (DATA s))\<rparr>"

text \<open>
  The welcome text of the source has one character outside the modelled range (U+2011),
  written here as its three UTF-8 bytes; no operation looks into a page's content.
\<close>

definition welcome_text :: string where
  "welcome_text = ''Welcome to your Notion'' @ [CHR 0xE2, CHR 0x80, CHR 0x91] @ ''style workspace!''"

definition default_data :: "string \<Rightarrow> workspace" where
  "default_data root_id =
     [(root_id, \<lparr>title = ''Home'', content = welcome_text, children = [], database = []\<rparr>)]"

text \<open>
  \<^verbatim>\<open>load_data\<close>. The value of \<^verbatim>\<open>uuid.uuid4()\<close> is an argument. Only
  \<^verbatim>\<open>json.JSONDecodeError\<close> is caught; any other exception of the read leaves the function.
\<close>

definition load_data :: "string \<Rightarrow> file_content option \<Rightarrow> py_error + state" where
  "load_data uuid4 file =
     (let fresh = Inr (save_data \<lparr>DATA = default_data uuid4, DATA_FILE = file\<rparr>) in
      case file of
        None \<Rightarrow> fresh
      | Some f \<Rightarrow>
          (case json_load f of
             Inr d \<Rightarrow> Inr \<lparr>DATA = d, DATA_FILE = file\<rparr>
           | Inl JSONDecodeError \<Rightarrow> fresh
           | Inl e \<Rightarrow> Inl e))"

section \<open>Page operations\<close>

text \<open>
  \<^verbatim>\<open>add_page\<close>. The new entry is stored before the parent is looked up, and an empty
  \<^verbatim>\<open>parent_id\<close> is falsy like \<^verbatim>\<open>None\<close>.
\<close>

definition add_page :: "string \<Rightarrow> string \<Rightarrow> string option \<Rightarrow> state \<Rightarrow> string \<times> state" where
  "add_page uuid4 t parent_id s =
     (let page_id = uuid4;
          d1 = AList.update page_id
                 \<lparr>title = title_or_default t, content = [], children = [], database = []\<rparr>
                 (DATA s);
          d2 = (case parent_id of
                  None \<Rightarrow> d1
                | Some par \<Rightarrow>
                    if par \<noteq> [] then
                      (case map_of d1 par of
                         None \<Rightarrow> d1
                       | Some p \<Rightarrow> AList.update par (p\<lparr>children := children p @ [page_id]\<rparr>) d1)
                    else d1)
      in (page_id, save_data (s\<lparr>DATA := d2\<rparr>)))"

definition update_page :: "string \<Rightarrow> string \<Rightarrow> string \<Rightarrow> state \<Rightarrow> state" where
  "update_page page_id t c s =
     (case map_of (DATA s) page_id of
        None \<Rightarrow> s
      | Some p \<Rightarrow>
          save_data (s\<lparr>DATA := AList.update page_id
                                 (p\<lparr>title := title_or_default t, content := c\<rparr>) (DATA s)\<rparr>))"

text \<open>
  \<^verbatim>\<open>delete_page\<close>. The second loop of the source takes the first occurrence of
  \<^verbatim>\<open>page_id\<close> out of every children list that has one (\<^verbatim>\<open>list.remove\<close>).
\<close>

definition scrub :: "string \<Rightarrow> workspace \<Rightarrow> workspace" where
  "scrub page_id d =
     map (\<lambda>(pid, pdata).
            (pid, if page_id \<in> set (children pdata)
                  then pdata\<lparr>children := remove1 page_id (children pdata)\<rparr>
                  else pdata)) d"

fun for_each :: "('a \<Rightarrow> 's \<Rightarrow> 's option) \<Rightarrow> 'a list \<Rightarrow> 's \<Rightarrow> 's option" where
  "for_each f [] s = Some s"
| "for_each f (x # xs) s = (case f x s of None \<Rightarrow> None | Some s' \<Rightarrow> for_each f xs s')"

text \<open>
  The recursion of \<^verbatim>\<open>delete_page\<close> follows the children links of the data, so its depth
  is bounded by a first argument: \<open>None\<close> says that the call needs a deeper recursion than
  that. The loop runs over a copy of the children list, taken before the first call.
\<close>

primrec delete_page :: "nat \<Rightarrow> string \<Rightarrow> state \<Rightarrow> state option" where
  "delete_page 0 page_id s = (if map_of (DATA s) page_id = None then Some s else None)"
| "delete_page (Suc n) page_id s =
     (case map_of (DATA s) page_id of
        None \<Rightarrow> Some s
      | Some p \<Rightarrow>
          (case for_each (delete_page n) (children p) s of
             None \<Rightarrow> None
           | Some s1 \<Rightarrow>
               Some (save_data (s1\<lparr>DATA := AList.delete page_id (scrub page_id (DATA s1))\<rparr>))))"

text \<open>
  \<^verbatim>\<open>get_page_tree\<close>. A node is the dictionary \<^verbatim>\<open>{"id", "title", "children"}\<close>.
  \<^verbatim>\<open>DATA[pid]\<close> raises \<^verbatim>\<open>KeyError\<close> for an id that is no key; the depth of the
  recursion of \<^verbatim>\<open>build_node\<close> is bounded like that of \<^verbatim>\<open>delete_page\<close>.
\<close>

datatype node = Node (node_id: string) (node_title: string) (node_children: "node list")

fun collect :: "('a \<Rightarrow> (py_error + 'b) option) \<Rightarrow> 'a list \<Rightarrow> (py_error + 'b list) option" where
  "collect f [] = Some (Inr [])"
| "collect f (x # xs) =
     (case f x of
        None \<Rightarrow> None
      | Some (Inl e) \<Rightarrow> Some (Inl e)
      | Some (Inr y) \<Rightarrow>
          (case collect f xs of
             None \<Rightarrow> None
           | Some (Inl e) \<Rightarrow> Some (Inl e)
           | Some (Inr ys) \<Rightarrow> Some (Inr (y # ys))))"

primrec build_node :: "nat \<Rightarrow> workspace \<Rightarrow> string \<Rightarrow> (py_error + node) option" where
  "build_node 0 d pid = (case map_of d pid of None \<Rightarrow> Some (Inl KeyError) | Some p \<Rightarrow> None)"
| "build_node (Suc n) d pid =
     (case map_of d pid of
        None \<Rightarrow> Some (Inl KeyError)
      | Some p \<Rightarrow>
          (case collect (build_node n d) (children p) of
             None \<Rightarrow> None
           | Some (Inl e) \<Rightarrow> Some (Inl e)
           | Some (Inr ns) \<Rightarrow> Some (Inr (Node pid (title p) ns))))"

definition all_children :: "workspace \<Rightarrow> string set" where
  "all_children d = set (concat (map (\<lambda>(pid, p). children p) d))"

definition root_ids :: "workspace \<Rightarrow> string list" where
  "root_ids d = filter (\<lambda>pid. pid \<notin> all_children d) (map fst d)"

definition get_page_tree :: "nat \<Rightarrow> workspace \<Rightarrow> (py_error + node list) option" where
  "get_page_tree n d = collect (build_node n d) (root_ids d)"

section \<open>Rendering\<close>

definition newline :: char where
  "newline = CHR 0x0A"

definition dquote :: char where
  "dquote = CHR 0x22"

definition squote :: char where
  "squote = CHR 0x27"

text \<open>\<^verbatim>\<open>str.split(sep)\<close> for a one-character separator: never an empty list.\<close>

fun split_on :: "char \<Rightarrow> string \<Rightarrow> string list" where
  "split_on sep [] = [[]]"
| "split_on sep (c # cs) =
     (if c = sep then [] # split_on sep cs
      else (case split_on sep cs of [] \<Rightarrow> [[c]] | l # ls \<Rightarrow> (c # l) # ls))"

fun join :: "string \<Rightarrow> string list \<Rightarrow> string" where
  "join sep [] = []"
| "join sep [x] = x"
| "join sep (x # y # ys) = x @ sep @ join sep (y # ys)"

definition startswith :: "string \<Rightarrow> string \<Rightarrow> bool" where
  "startswith s p = (take (length p) s = p)"

text \<open>\<^verbatim>\<open>str.replace(old, new)\<close> for a one-character \<^verbatim>\<open>old\<close>.\<close>

definition replace :: "char \<Rightarrow> string \<Rightarrow> string \<Rightarrow> string" where
  "replace old new text = concat (map (\<lambda>c. if c = old then new else [c]) text)"

definition html_escape :: "string \<Rightarrow> string" where
  "html_escape text =
     replace squote ''&#39;''
       (replace dquote ''&quot;''
          (replace CHR ''>'' ''&gt;''
             (replace CHR ''<'' ''&lt;''
                (replace CHR ''&'' ''&amp;'' text))))"

text \<open>
  The two regular expressions, matched at the start of the line. The group \<^verbatim>\<open>(.*)\<close>
  takes the rest of the line up to the first newline; with \<^verbatim>\<open>re.IGNORECASE\<close> the
  letter is \<^verbatim>\<open>x\<close> or \<^verbatim>\<open>X\<close>.
\<close>

definition group1 :: "string \<Rightarrow> string" where
  "group1 rest = takeWhile (\<lambda>c. c \<noteq> newline) rest"

definition match_unchecked :: "string \<Rightarrow> string option" where
  "match_unchecked line =
     (if startswith line ''- [ ] '' then Some (group1 (drop 6 line)) else None)"

definition match_checked :: "string \<Rightarrow> string option" where
  "match_checked line =
     (if startswith line ''- [x] '' \<or> startswith line ''- [X] ''
      then Some (group1 (drop 6 line)) else None)"

definition unchecked_html :: "string \<Rightarrow> string" where
  "unchecked_html task =
     ''<label><input type='' @ [dquote] @ ''checkbox'' @ [dquote] @ '' disabled> ''
       @ html_escape task @ ''</label><br>''"

definition checked_html :: "string \<Rightarrow> string" where
  "checked_html task =
     ''<label><input type='' @ [dquote] @ ''checkbox'' @ [dquote] @ '' checked disabled> ''
       @ html_escape task @ ''</label><br>''"

definition is_fence :: "string \<Rightarrow> bool" where
  "is_fence line = startswith (strip line) ''```''"

text \<open>
  One turn of the loop of \<^verbatim>\<open>render_content\<close>, on the loop's two variables
  \<^verbatim>\<open>in_code\<close> and \<^verbatim>\<open>html_parts\<close>.
\<close>

definition render_line :: "string \<Rightarrow> bool \<times> string list \<Rightarrow> bool \<times> string list" where
  "render_line line st =
     (case st of (in_code, html_parts) \<Rightarrow>
        if is_fence line then
          (let in_code' = \<not> in_code in
           (in_code', html_parts @ [if in_code' then ''<pre><code>'' else ''</code></pre>'']))
        else if in_code then (in_code, html_parts @ [html_escape line @ [newline]])
        else
          (case match_unchecked line of
             Some task \<Rightarrow> (in_code, html_parts @ [unchecked_html task])
           | None \<Rightarrow>
               (case match_checked line of
                  Some task \<Rightarrow> (in_code, html_parts @ [checked_html task])
                | None \<Rightarrow> (in_code, html_parts @ [''<p>'' @ html_escape line @ ''</p>'']))))"

definition render_content :: "string \<Rightarrow> string" where
  "render_content raw =
     join [newline] (snd (fold render_line (split_on newline raw) (False, [])))"

section \<open>The row handler\<close>

text \<open>
  The request, as far as \<^verbatim>\<open>add_db_row\<close> reads it: whether \<^verbatim>\<open>get_current_user\<close>
  finds a session, the path, and the form that \<^verbatim>\<open>urllib.parse.parse_qs\<close> returns
  for the body (a dictionary from field names to lists of values).
\<close>

record request =
  req_user :: bool
  req_path :: string
  req_form :: "(string \<times> string list) list"

datatype response = RedirectResponse string nat

definition require_login :: "request \<Rightarrow> response option" where
  "require_login r =
     (if \<not> req_user r then Some (RedirectResponse (''/login?next='' @ req_path r) 302)
      else None)"

definition form_get :: "(string \<times> string list) list \<Rightarrow> string \<Rightarrow> string list \<Rightarrow> string list" where
  "form_get form key dflt = (case map_of form key of None \<Rightarrow> dflt | Some vs \<Rightarrow> vs)"

definition first :: "string list \<Rightarrow> py_error + string" where
  "first vs = (case vs of [] \<Rightarrow> Inl IndexError | v # _ \<Rightarrow> Inr v)"

fun build_row :: "(string \<times> string list) list \<Rightarrow> row \<Rightarrow> py_error + row" where
  "build_row [] row = Inr row"
| "build_row ((key, vals) # rest) row =
     (if key = ''new_col'' \<or> key = ''new_val'' then build_row rest row
      else
        (case first vals of
           Inl e \<Rightarrow> Inl e
         | Inr v \<Rightarrow>
             (let val = strip v in
              if val \<noteq> [] then build_row rest (AList.update key val row)
              else build_row rest row)))"

definition add_db_row :: "request \<Rightarrow> string \<Rightarrow> state \<Rightarrow> py_error + (response \<times> state)" where
  "add_db_row r page_id s =
     (case require_login r of
        Some resp \<Rightarrow> Inr (resp, s)
      | None \<Rightarrow>
          (case map_of (DATA s) page_id of
             None \<Rightarrow> Inr (RedirectResponse ''/'' 302, s)
           | Some p \<Rightarrow>
               (case first (form_get (req_form r) ''new_col'' [[]]) of
                  Inl e \<Rightarrow> Inl e
                | Inr nc \<Rightarrow>
                    (case first (form_get (req_form r) ''new_val'' [[]]) of
                       Inl e \<Rightarrow> Inl e
                     | Inr nv \<Rightarrow>
                         (case build_row (req_form r) [] of
                            Inl e \<Rightarrow> Inl e
                          | Inr row \<Rightarrow>
                              (let new_col = strip nc;
                                   new_val = strip nv;
                                   row' = (if new_col \<noteq> [] then AList.update new_col new_val row
                                           else row)
                               in Inr (RedirectResponse (''/page/'' @ page_id @ ''/database'') 302,
                                       save_data
                                         (s\<lparr>DATA := AList.update page_id
                                                        (p\<lparr>database := database p @ [row']\<rparr>)
                                                        (DATA s)\<rparr>))))))))"

text \<open>
  The fields of a form that make a row: every field but \<^verbatim>\<open>new_col\<close> and
  \<^verbatim>\<open>new_val\<close> whose first value is not blank, in the form's order, with that value
  trimmed.
\<close>

definition kept_fields :: "(string \<times> string list) list \<Rightarrow> row" where
  "kept_fields form =
     map (\<lambda>(key, vals). (key, strip (hd vals)))
       (filter (\<lambda>(key, vals). key \<noteq> ''new_col'' \<and> key \<noteq> ''new_val'' \<and> strip (hd vals) \<noteq> [])
          form)"

section \<open>Well-formed workspaces\<close>

text \<open>
  The properties of a workspace that the statements below are about: every child id is a
  key, no children list names an id twice, and the children links, as a relation from a
  page to its children, with the set of pages reachable from a page.
\<close>

definition no_dangling :: "workspace \<Rightarrow> bool" where
  "no_dangling d = (\<forall>(pid, p) \<in> set d. \<forall>cid \<in> set (children p). cid \<in> fst ` set d)"

definition distinct_children :: "workspace \<Rightarrow> bool" where
  "distinct_children d = (\<forall>(pid, p) \<in> set d. distinct (children p))"

definition child_rel :: "workspace \<Rightarrow> (string \<times> string) set" where
  "child_rel d = {(pid, cid). \<exists>p. (pid, p) \<in> set d \<and> cid \<in> set (children p)}"

definition descendants :: "workspace \<Rightarrow> string \<Rightarrow> string set" where
  "descendants d x = (child_rel d)\<^sup>* `` {x}"

text \<open>
  A rank that falls along every children link is a certificate that the links have no
  cycle, and one that can be checked on a concrete workspace.
\<close>

definition ranked :: "(string \<Rightarrow> nat) \<Rightarrow> workspace \<Rightarrow> bool" where
  "ranked r d = (\<forall>(pid, p) \<in> set d. \<forall>cid \<in> set (children p). r cid < r pid)"

text \<open>
  What is left of a workspace when the pages of a set \<open>D\<close> go: their entries are
  dropped, their ids are taken out of every children list, and nothing else changes.
\<close>

definition prune :: "string set \<Rightarrow> workspace \<Rightarrow> workspace" where
  "prune D d =
     map (\<lambda>(pid, p). (pid, p\<lparr>children := filter (\<lambda>cid. cid \<notin> D) (children p)\<rparr>))
       (filter (\<lambda>(pid, p). pid \<notin> D) d)"

text \<open>
  The states that a sequence of \<^verbatim>\<open>add_page\<close> and \<^verbatim>\<open>delete_page\<close> calls reaches from a
  state, when every generated id is new: no key of the workspace, and not the parent id
  that the caller passed.
\<close>

inductive steps :: "state \<Rightarrow> state \<Rightarrow> bool" for s0 :: state where
  start: "steps s0 s0"
| add: "steps s0 s \<Longrightarrow> uuid4 \<notin> fst ` set (DATA s) \<Longrightarrow> parent_id \<noteq> Some uuid4 \<Longrightarrow>
        steps s0 (snd (add_page uuid4 t parent_id s))"
| del: "steps s0 s \<Longrightarrow> delete_page n page_id s = Some s' \<Longrightarrow> steps s0 s'"

text \<open>The ids in a node, and what a forest and a workspace say is reachable from a root.\<close>

fun node_ids :: "node \<Rightarrow> string set" where
  "node_ids (Node i t cs) = insert i (\<Union> (node_ids ` set cs))"

definition forest_reach :: "node list \<Rightarrow> (string \<times> string) set" where
  "forest_reach f = {(node_id t, x) | t x. t \<in> set f \<and> x \<in> node_ids t}"

text \<open>A root, in the words of the specification: a key that no page names as a child.\<close>

definition is_root :: "workspace \<Rightarrow> string \<Rightarrow> bool" where
  "is_root d pid = (pid \<in> fst ` set d \<and> pid \<notin> Range (child_rel d))"

definition workspace_reach :: "workspace \<Rightarrow> (string \<times> string) set" where
  "workspace_reach d = {(r, x). is_root d r \<and> (r, x) \<in> (child_rel d)\<^sup>*}"

text \<open>A node mirrors the workspace: at every level, the page's title and its children in order.\<close>

fun mirrors :: "workspace \<Rightarrow> node \<Rightarrow> bool" where
  "mirrors d (Node i t cs) =
     (case map_of d i of
        None \<Rightarrow> False
      | Some p \<Rightarrow> t = title p \<and> map node_id cs = children p \<and> (\<forall>c \<in> set cs. mirrors d c))"

section \<open>Examples\<close>

definition blank_page :: "string \<Rightarrow> string list \<Rightarrow> page" where
  "blank_page t cs = \<lparr>title = t, content = [], children = cs, database = []\<rparr>"

definition home_state :: state where
  "home_state = \<lparr>DATA = default_data ''root'', DATA_FILE = Some (Json (default_data ''root''))\<rparr>"

definition logged_in :: "(string \<times> string list) list \<Rightarrow> request" where
  "logged_in form = \<lparr>req_user = True, req_path = ''/page/root/database/add'', req_form = form\<rparr>"

definition home_with_rows :: "row list \<Rightarrow> state" where
  "home_with_rows rows =
     (let d = [(''root'', \<lparr>title = ''Home'', content = welcome_text, children = [],
                              database = rows\<rparr>)]
      in \<lparr>DATA = d, DATA_FILE = Some (Json d)\<rparr>)"

definition anon_state :: state where
  "anon_state = \<lparr>DATA = [([], blank_page ''Home'' [])], DATA_FILE = None\<rparr>"

definition some_uuid :: string where
  "some_uuid = ''123e4567-e89b-42d3-a456-426614174000''"

definition uuid_state :: state where
  "uuid_state = \<lparr>DATA = default_data some_uuid, DATA_FILE = Some (Json (default_data some_uuid))\<rparr>"

definition tree_state :: state where
  "tree_state =
     \<lparr>DATA = [(''r'', blank_page ''Home'' [''a'', ''b'']), (''a'', blank_page ''A'' [''c'']),
              (''b'', blank_page ''B'' []), (''c'', blank_page ''C'' [])],
      DATA_FILE = None\<rparr>"

definition tree_rank :: "string \<Rightarrow> nat" where
  "tree_rank pid = (if pid = ''r'' then 2 else if pid = ''a'' then 1 else 0)"

definition grove_state :: state where
  "grove_state =
     \<lparr>DATA = [(''a'', blank_page ''A'' [''c'']), (''r'', blank_page ''Home'' [''a'', ''b'']),
              (''b'', blank_page ''B'' []), (''z'', blank_page ''Z'' []),
              (''c'', blank_page ''C'' [])],
      DATA_FILE = None\<rparr>"

definition twice_state :: state where
  "twice_state =
     \<lparr>DATA = [(''p'', blank_page ''P'' [''c'', ''c'']), (''c'', blank_page ''C'' [])],
      DATA_FILE = None\<rparr>"

section \<open>Unknown ids\<close>

text \<open>
  C6. For an id that is no key of the workspace, \<^verbatim>\<open>update_page\<close> and \<^verbatim>\<open>delete_page\<close>
  return without an error and leave the whole state as it was: neither the workspace nor
  the file changes. For \<^verbatim>\<open>delete_page\<close> this holds at every bound on the recursion.
\<close>

theorem unknown_id_noop:
  assumes "page_id \<notin> fst ` set (DATA s)"
  shows "update_page page_id t c s = s \<and> delete_page n page_id s = Some s"
proof -
  from assms have none: "map_of (DATA s) page_id = None"
    by (simp add: map_of_eq_None_iff)
  have "update_page page_id t c s = s"
    by (simp add: update_page_def none)
  moreover have "delete_page n page_id s = Some s"
    by (cases n) (simp_all add: none)
  ultimately show ?thesis by simp
qed

theorem unknown_id_noop_witness:
  "''ghost'' \<notin> fst ` set (DATA home_state)
   \<and> update_page ''ghost'' ''T'' ''text'' home_state = home_state
   \<and> delete_page 7 ''ghost'' home_state = Some home_state"
proof -
  have h: "''ghost'' \<notin> fst ` set (DATA home_state)"
    by (simp add: home_state_def default_data_def)
  from unknown_id_noop [OF h, of "''T''" "''text''" 7] h show ?thesis by simp
qed

section \<open>Loading\<close>

text \<open>
  C5. A file whose bytes are not UTF-8 makes \<^verbatim>\<open>json.load\<close> raise
  \<^verbatim>\<open>UnicodeDecodeError\<close>, which the handler for \<^verbatim>\<open>json.JSONDecodeError\<close> does not
  catch: \<^verbatim>\<open>load_data\<close> raises instead of starting fresh.
\<close>

theorem load_data_not_utf8:
  "load_data uuid4 (Some NotUtf8) = Inl UnicodeDecodeError"
  by (simp add: load_data_def)

text \<open>
  On the other inputs \<^verbatim>\<open>load_data\<close> does what its docstring says: with no file, or
  with a file that is not JSON, it returns the one-page workspace and writes it; with a
  file that holds a workspace, it returns that workspace and writes nothing.
\<close>

lemma load_data_fresh:
  "file = None \<or> file = Some NotJson \<Longrightarrow>
   load_data uuid4 file =
     Inr \<lparr>DATA = default_data uuid4, DATA_FILE = Some (Json (default_data uuid4))\<rparr>"
  by (auto simp: load_data_def save_data_def)

lemma load_data_parsed:
  "load_data uuid4 (Some (Json d)) = Inr \<lparr>DATA = d, DATA_FILE = Some (Json d)\<rparr>"
  by (simp add: load_data_def)

section \<open>Strings and lists: auxiliary facts\<close>

lemma strip_empty_iff: "strip t = [] \<longleftrightarrow> (\<forall>c \<in> set t. isspace c)"
proof
  assume "\<forall>c \<in> set t. isspace c"
  then show "strip t = []" by (auto simp: strip_def dest: set_dropWhileD)
next
  assume e: "strip t = []"
  show "\<forall>c \<in> set t. isspace c"
  proof (cases "dropWhile isspace t")
    case Nil
    then show ?thesis by (simp add: dropWhile_eq_Nil_conv)
  next
    case (Cons x xs)
    with hd_dropWhile [of isspace t] have "\<not> isspace x" by fastforce
    moreover from e Cons have "\<forall>c \<in> set (x # xs). isspace c"
      by (simp add: strip_def dropWhile_eq_Nil_conv)
    ultimately show ?thesis by simp
  qed
qed

lemma update_new_key: "k \<notin> fst ` set al \<Longrightarrow> AList.update k v al = al @ [(k, v)]"
  by (induction al) auto

lemma startswith_iff: "startswith s p \<longleftrightarrow> (\<exists>rest. s = p @ rest)"
proof
  assume "startswith s p"
  then have "s = p @ drop (length p) s"
    unfolding startswith_def by (metis append_take_drop_id)
  then show "\<exists>rest. s = p @ rest" ..
next
  assume "\<exists>rest. s = p @ rest"
  then show "startswith s p" by (auto simp: startswith_def)
qed

lemma split_on_lines: "l \<in> set (split_on sep s) \<Longrightarrow> sep \<notin> set l"
  by (induction s arbitrary: l) (auto split: list.splits if_splits)

lemma split_on_single: "sep \<notin> set s \<Longrightarrow> split_on sep s = [s]"
  by (induction s) (auto split: list.splits)

lemma group1_line: "newline \<notin> set l \<Longrightarrow> group1 (drop n l) = drop n l"
  unfolding group1_def by (rule takeWhile_eq_all_conv [THEN iffD2]) (auto dest: in_set_dropD)

section \<open>Adding a page\<close>

text \<open>
  C3, as the code has it. \<^verbatim>\<open>add_page\<close> works with the id that \<^verbatim>\<open>uuid.uuid4()\<close>
  returns and does not check it. Let that id be new: no key of the workspace, and not
  the \<^verbatim>\<open>parent_id\<close> of the call. Then \<^verbatim>\<open>add_page\<close> returns that id; the keys of the
  workspace are the old ones followed by the new id; the new page has empty content,
  children and rows, and its title is the input with the white space at both ends taken
  off, or \<^verbatim>\<open>Untitled\<close> when the input is empty or white space only; every other page is
  as before, but for the page named by a non-empty \<^verbatim>\<open>parent_id\<close>, whose children get
  the new id at the end; and the file holds the new workspace.
\<close>

theorem add_page_fresh:
  assumes "uuid4 \<notin> fst ` set (DATA s)" and "parent_id \<noteq> Some uuid4"
  shows "case add_page uuid4 t parent_id s of (page_id, s') \<Rightarrow>
       page_id = uuid4
     \<and> map fst (DATA s') = map fst (DATA s) @ [uuid4]
     \<and> map_of (DATA s') uuid4 =
         Some \<lparr>title = (if \<forall>c \<in> set t. isspace c then ''Untitled'' else strip t),
               content = [], children = [], database = []\<rparr>
     \<and> (\<forall>pid p. pid \<noteq> uuid4 \<and> map_of (DATA s) pid = Some p \<longrightarrow>
           map_of (DATA s') pid =
             Some (if parent_id = Some pid \<and> pid \<noteq> []
                   then p\<lparr>children := children p @ [uuid4]\<rparr> else p))
     \<and> (\<forall>pid. pid \<noteq> uuid4 \<and> map_of (DATA s) pid = None \<longrightarrow> map_of (DATA s') pid = None)
     \<and> DATA_FILE s' = Some (Json (DATA s'))"
proof -
  define new where "new = \<lparr>title = title_or_default t, content = [], children = [], database = []\<rparr>"
  define d1 where "d1 = AList.update uuid4 new (DATA s)"
  have t: "new = \<lparr>title = (if \<forall>c \<in> set t. isspace c then ''Untitled'' else strip t),
                   content = [], children = [], database = []\<rparr>"
    by (simp add: new_def title_or_default_def strip_empty_iff)
  have k1: "map fst d1 = map fst (DATA s) @ [uuid4]"
    using assms(1) by (simp add: d1_def update_keys)
  have m1: "map_of d1 = (map_of (DATA s))(uuid4 \<mapsto> new)"
    unfolding d1_def by (rule update_conv')
  have goal: ?thesis
    if run: "add_page uuid4 t parent_id s = (uuid4, save_data (s\<lparr>DATA := d2\<rparr>))"
      and keys: "map fst d2 = map fst (DATA s) @ [uuid4]"
      and new: "map_of d2 uuid4 = Some new"
      and old: "\<And>pid p. pid \<noteq> uuid4 \<Longrightarrow> map_of (DATA s) pid = Some p \<Longrightarrow>
           map_of d2 pid = Some (if parent_id = Some pid \<and> pid \<noteq> []
                                 then p\<lparr>children := children p @ [uuid4]\<rparr> else p)"
      and none: "\<And>pid. pid \<noteq> uuid4 \<Longrightarrow> map_of (DATA s) pid = None \<Longrightarrow> map_of d2 pid = None"
    for d2
  proof -
    have D: "DATA (save_data (s\<lparr>DATA := d2\<rparr>)) = d2"
      "DATA_FILE (save_data (s\<lparr>DATA := d2\<rparr>)) = Some (Json d2)"
      by (simp_all add: save_data_def)
    show ?thesis
      unfolding run prod.case D
    proof (intro conjI allI impI)
      show "uuid4 = uuid4" ..
      show "map fst d2 = map fst (DATA s) @ [uuid4]" by (rule keys)
      show "map_of d2 uuid4 =
          Some \<lparr>title = (if \<forall>c \<in> set t. isspace c then ''Untitled'' else strip t),
                content = [], children = [], database = []\<rparr>"
        using new t by simp
      show "Some (Json d2) = Some (Json d2)" ..
      show "map_of d2 pid =
          Some (if parent_id = Some pid \<and> pid \<noteq> [] then p\<lparr>children := children p @ [uuid4]\<rparr> else p)"
        if "pid \<noteq> uuid4 \<and> map_of (DATA s) pid = Some p" for pid p
        using old [of pid p] that by simp
      show "map_of d2 pid = None"
        if "pid \<noteq> uuid4 \<and> map_of (DATA s) pid = None" for pid
        using none [of pid] that by simp
    qed
  qed
  show ?thesis
  proof (cases "\<exists>par p. parent_id = Some par \<and> par \<noteq> [] \<and> map_of d1 par = Some p")
    case False
    show ?thesis
    proof (rule goal [of d1])
      from False show "add_page uuid4 t parent_id s = (uuid4, save_data (s\<lparr>DATA := d1\<rparr>))"
        by (auto simp: add_page_def Let_def d1_def new_def split: option.splits)
      show "map fst d1 = map fst (DATA s) @ [uuid4]" by (rule k1)
      show "map_of d1 uuid4 = Some new" by (simp add: m1)
      show "map_of d1 pid = Some (if parent_id = Some pid \<and> pid \<noteq> []
                                 then p\<lparr>children := children p @ [uuid4]\<rparr> else p)"
        if "pid \<noteq> uuid4" "map_of (DATA s) pid = Some p" for pid p
        using False that by (auto simp: m1)
      show "map_of d1 pid = None" if "pid \<noteq> uuid4" "map_of (DATA s) pid = None" for pid
        using that by (simp add: m1)
    qed
  next
    case True
    then obtain par p where par: "parent_id = Some par" "par \<noteq> []" "map_of d1 par = Some p"
      by blast
    from par assms(2) have ne: "par \<noteq> uuid4" by auto
    with par have old: "map_of (DATA s) par = Some p" by (simp add: m1)
    define d2 where "d2 = AList.update par (p\<lparr>children := children p @ [uuid4]\<rparr>) d1"
    have m2: "map_of d2 = (map_of d1)(par \<mapsto> p\<lparr>children := children p @ [uuid4]\<rparr>)"
      unfolding d2_def by (rule update_conv')
    show ?thesis
    proof (rule goal [of d2])
      from par show "add_page uuid4 t parent_id s = (uuid4, save_data (s\<lparr>DATA := d2\<rparr>))"
        by (simp add: add_page_def Let_def d1_def [symmetric] new_def [symmetric] d2_def)
      from old have "map_of (DATA s) par \<noteq> None" by simp
      then have inS: "par \<in> fst ` set (DATA s)" by (simp add: map_of_eq_None_iff)
      from par have "map_of d1 par \<noteq> None" by simp
      then have inD: "par \<in> fst ` set d1" by (simp add: map_of_eq_None_iff)
      have "map fst d2 = map fst d1" using inD by (simp add: d2_def update_keys)
      then show "map fst d2 = map fst (DATA s) @ [uuid4]"
        using k1 by simp
      show "map_of d2 uuid4 = Some new" using ne by (simp add: m2 m1)
      show "map_of d2 pid = Some (if parent_id = Some pid \<and> pid \<noteq> []
                                 then p'\<lparr>children := children p' @ [uuid4]\<rparr> else p')"
        if "pid \<noteq> uuid4" "map_of (DATA s) pid = Some p'" for pid p'
        using that par old by (auto simp: m2 m1)
      show "map_of d2 pid = None" if "pid \<noteq> uuid4" "map_of (DATA s) pid = None" for pid
        using that old by (auto simp: m2 m1)
    qed
  qed
qed

theorem add_page_fresh_witness:
  "''n1'' \<notin> fst ` set (DATA home_state)
   \<and> fst (add_page ''n1'' ''   '' (Some ''root'') home_state) = ''n1''
   \<and> map fst (DATA (snd (add_page ''n1'' ''   '' (Some ''root'') home_state))) = [''root'', ''n1'']
   \<and> map_of (DATA (snd (add_page ''n1'' ''   '' (Some ''root'') home_state))) ''n1'' =
         Some \<lparr>title = ''Untitled'', content = [], children = [], database = []\<rparr>
   \<and> map_option children (map_of (DATA (snd (add_page ''n1'' ''   '' (Some ''root'') home_state))) ''root'')
       = Some [''n1'']"
proof -
  have h: "''n1'' \<notin> fst ` set (DATA home_state)" "Some ''root'' \<noteq> Some ''n1''"
    by (simp_all add: home_state_def default_data_def)
  have r: "map_of (DATA home_state) ''root'' =
      Some \<lparr>title = ''Home'', content = welcome_text, children = [], database = []\<rparr>"
    by (simp add: home_state_def default_data_def)
  have sp: "\<forall>c \<in> set ''   ''. isspace c" by (simp add: isspace_def)
  have k: "map fst (DATA home_state) = [''root'']" by (simp add: home_state_def default_data_def)
  from add_page_fresh [OF h, of "''   ''"] r sp k h(1) show ?thesis
    by (cases "add_page ''n1'' ''   '' (Some ''root'') home_state") simp
qed

text \<open>
  The claim as written fails in four places. The stored title is the trimmed input, not
  the input. A \<^verbatim>\<open>parent_id\<close> that is the empty string is taken for no parent, also
  when the workspace has a page under the empty id. The code takes the id that
  \<^verbatim>\<open>uuid.uuid4()\<close> returns without looking it up: when that value is a key already, the
  id returned is not a new one and the page under it is overwritten; and when it is the
  \<^verbatim>\<open>parent_id\<close> of the call, the new page becomes its own child.
\<close>

theorem add_page_counterexample:
  "map_option title (map_of (DATA (snd (add_page ''n1'' '' Notes'' None home_state))) ''n1'')
     = Some ''Notes''
   \<and> map_option children (map_of (DATA (snd (add_page ''n1'' ''T'' (Some []) anon_state))) [])
     = Some []
   \<and> fst (add_page some_uuid ''T'' None uuid_state) \<in> fst ` set (DATA uuid_state)
   \<and> DATA (snd (add_page some_uuid ''T'' None uuid_state)) = [(some_uuid, blank_page ''T'' [])]
   \<and> map_option children
        (map_of (DATA (snd (add_page some_uuid ''T'' (Some some_uuid) home_state))) some_uuid)
     = Some [some_uuid]"
proof -
  have a: "map_option title (map_of (DATA (snd (add_page ''n1'' '' Notes'' None home_state))) ''n1'')
     = Some ''Notes''"
    by (simp add: add_page_def home_state_def default_data_def save_data_def
        title_or_default_def strip_def isspace_def Let_def)
  have b: "map_option children (map_of (DATA (snd (add_page ''n1'' ''T'' (Some []) anon_state))) [])
     = Some []"
    by (simp add: add_page_def anon_state_def blank_page_def save_data_def Let_def)
  have t: "title_or_default ''T'' = ''T''"
    by (simp add: title_or_default_def strip_def isspace_def)
  have c: "fst (add_page some_uuid ''T'' None uuid_state) \<in> fst ` set (DATA uuid_state)"
    by (simp add: add_page_def uuid_state_def default_data_def Let_def)
  have d: "DATA (snd (add_page some_uuid ''T'' None uuid_state)) = [(some_uuid, blank_page ''T'' [])]"
    by (simp add: add_page_def uuid_state_def default_data_def save_data_def blank_page_def t Let_def)
  have ne: "some_uuid \<noteq> []" "''root'' \<noteq> some_uuid"
    by (simp_all add: some_uuid_def)
  have e: "map_option children
        (map_of (DATA (snd (add_page some_uuid ''T'' (Some some_uuid) home_state))) some_uuid)
     = Some [some_uuid]"
    using ne by (simp add: add_page_def home_state_def default_data_def save_data_def Let_def)
  from a b c d e show ?thesis by simp
qed

section \<open>Adding a row\<close>

text \<open>
  C7, as the code has it. For a \<^verbatim>\<open>page_id\<close> that is no key of the workspace, the
  handler of a logged-in request raises nothing: it answers with the redirect to the home
  page and leaves the state, workspace and file, as it was. (For a known page the answer
  is the redirect to that page's table.)
\<close>

theorem add_db_row_unknown_page:
  assumes "req_user r" and "page_id \<notin> fst ` set (DATA s)"
  shows "add_db_row r page_id s = Inr (RedirectResponse ''/'' 302, s)"
proof -
  from assms(2) have "map_of (DATA s) page_id = None"
    by (simp add: map_of_eq_None_iff)
  with assms(1) show ?thesis
    by (simp add: add_db_row_def require_login_def)
qed

theorem add_db_row_unknown_page_witness:
  "req_user (logged_in []) \<and> ''nowhere'' \<notin> fst ` set (DATA anon_state)
   \<and> add_db_row (logged_in []) ''nowhere'' anon_state = Inr (RedirectResponse ''/'' 302, anon_state)"
proof -
  have h: "req_user (logged_in [])" "''nowhere'' \<notin> fst ` set (DATA anon_state)"
    by (simp_all add: logged_in_def anon_state_def)
  from add_db_row_unknown_page [OF h] h show ?thesis by simp
qed

text \<open>The claim as written fails: the result is a redirect, not an error.\<close>

theorem add_db_row_unknown_page_counterexample:
  "add_db_row (logged_in [(''Status'', [''Done''])]) ''ghost'' home_state
     = Inr (RedirectResponse ''/'' 302, home_state)"
  by (simp add: add_db_row_def logged_in_def require_login_def home_state_def default_data_def)

lemma build_row_kept:
  "distinct (map fst form) \<Longrightarrow> fst ` set form \<inter> fst ` set row = {} \<Longrightarrow>
   (\<forall>(key, vals) \<in> set form. vals \<noteq> []) \<Longrightarrow>
   build_row form row = Inr (row @ kept_fields form)"
proof (induction form arbitrary: row)
  case Nil
  then show ?case by (simp add: kept_fields_def)
next
  case (Cons a form)
  obtain key vals where a: "a = (key, vals)" by (cases a)
  from Cons.prems a obtain v vs where vals: "vals = v # vs" by (cases vals) auto
  from Cons.prems a have knew: "key \<notin> fst ` set row" by auto
  from Cons.prems a have d: "distinct (map fst form)" and kf: "key \<notin> fst ` set form"
    and ne: "\<forall>(key, vals) \<in> set form. vals \<noteq> []"
    and dj: "fst ` set form \<inter> fst ` set row = {}"
    by auto
  have rest: "build_row form row' = Inr (row' @ kept_fields form)"
    if "fst ` set row' \<subseteq> insert key (fst ` set row)" for row'
  proof (rule Cons.IH [OF d _ ne])
    show "fst ` set form \<inter> fst ` set row' = {}"
      using that kf dj by blast
  qed
  show ?case
  proof (cases "key = ''new_col'' \<or> key = ''new_val'' \<or> strip v = []")
    case True
    then show ?thesis
      using rest [of row] by (auto simp: a vals first_def kept_fields_def)
  next
    case False
    then show ?thesis
      using rest [of "row @ [(key, strip v)]"] knew
      by (auto simp: a vals first_def kept_fields_def update_new_key Let_def)
  qed
qed

lemma update_existing:
  "distinct (map fst al) \<Longrightarrow> k \<in> fst ` set al \<Longrightarrow>
   AList.update k v al = map (\<lambda>(k', v'). if k' = k then (k', v) else (k', v')) al"
proof (induction al)
  case Nil
  then show ?case by simp
next
  case (Cons a al)
  obtain k' v' where a: "a = (k', v')" by (cases a)
  show ?case
  proof (cases "k' = k")
    case True
    with Cons.prems a have "k \<notin> fst ` set al" by auto
    then have "map (\<lambda>(k', v'). if k' = k then (k', v) else (k', v')) al = al"
      by (intro map_idI) force
    with True a show ?thesis by simp
  next
    case False
    with Cons.prems a have "distinct (map fst al)" "k \<in> fst ` set al" by auto
    with Cons.IH False a show ?thesis by simp
  qed
qed

lemma kept_fields_distinct: "distinct (map fst form) \<Longrightarrow> distinct (map fst (kept_fields form))"
proof -
  have "map fst (kept_fields form) =
      map fst (filter (\<lambda>(key, vals). key \<noteq> ''new_col'' \<and> key \<noteq> ''new_val''
                         \<and> strip (hd vals) \<noteq> []) form)"
    by (simp add: kept_fields_def case_prod_unfold)
  then show "distinct (map fst form) \<Longrightarrow> distinct (map fst (kept_fields form))"
    by (simp add: distinct_map_filter)
qed

lemma kept_fields_values: "\<forall>(key, val) \<in> set (kept_fields form). val \<noteq> []"
  by (auto simp: kept_fields_def)

lemma first_hd: "vals \<noteq> [] \<Longrightarrow> first vals = Inr (hd vals)"
  by (cases vals) (simp_all add: first_def)

lemma form_get_nonempty:
  "\<forall>(key, vals) \<in> set form. vals \<noteq> [] \<Longrightarrow> form_get form key [[]] \<noteq> []"
  by (auto simp: form_get_def split: option.splits dest: map_of_SomeD)

text \<open>
  C8, as the code has it. Take a logged-in request for a page of the workspace, with a
  form as \<^verbatim>\<open>parse_qs\<close> builds it (one entry per field, no empty list of values), in
  which the new column has no name or has a value that is not blank. The handler answers
  with the redirect to the page's table and appends one row to the page's rows, leaving
  the earlier rows, the other pages and the order of the pages as they were, and writes
  the file. The row holds the fields of \<open>kept_fields\<close>, each with its trimmed first value.
  When the new column has a name, its trimmed value is set in that row as in a dictionary:
  it takes the place of the value of the kept field of that name when there is one, and
  the new column goes to the end of the row otherwise. No value in the row is empty.
\<close>

theorem add_db_row_appends:
  assumes "req_user r" and "map_of (DATA s) page_id = Some p"
    and "distinct (map fst (req_form r))"
    and "\<forall>(key, vals) \<in> set (req_form r). vals \<noteq> []"
    and "new_col = strip (hd (form_get (req_form r) ''new_col'' [[]]))"
    and "new_val = strip (hd (form_get (req_form r) ''new_val'' [[]]))"
    and "new_col = [] \<or> new_val \<noteq> []"
    and "row = (if new_col = [] then kept_fields (req_form r)
                else if new_col \<in> fst ` set (kept_fields (req_form r))
                then map (\<lambda>(key, val). if key = new_col then (key, new_val) else (key, val))
                       (kept_fields (req_form r))
                else kept_fields (req_form r) @ [(new_col, new_val)])"
  shows "add_db_row r page_id s =
           Inr (RedirectResponse (''/page/'' @ page_id @ ''/database'') 302,
                save_data (s\<lparr>DATA := AList.update page_id (p\<lparr>database := database p @ [row]\<rparr>)
                                         (DATA s)\<rparr>))
         \<and> (\<forall>(key, val) \<in> set row. val \<noteq> [])"
proof -
  have row: "row = (if new_col = [] then kept_fields (req_form r)
                else AList.update new_col new_val (kept_fields (req_form r)))"
    unfolding assms(8)
    using update_existing [OF kept_fields_distinct [OF assms(3)], of new_col new_val]
      update_new_key [of new_col "kept_fields (req_form r)" new_val]
    by simp
  have b: "build_row (req_form r) [] = Inr (kept_fields (req_form r))"
    using build_row_kept [OF assms(3) _ assms(4), of "[]"] by simp
  have c: "first (form_get (req_form r) ''new_col'' [[]]) = Inr (hd (form_get (req_form r) ''new_col'' [[]]))"
    "first (form_get (req_form r) ''new_val'' [[]]) = Inr (hd (form_get (req_form r) ''new_val'' [[]]))"
    using form_get_nonempty [OF assms(4)] by (simp_all add: first_hd)
  have "add_db_row r page_id s =
           Inr (RedirectResponse (''/page/'' @ page_id @ ''/database'') 302,
                save_data (s\<lparr>DATA := AList.update page_id (p\<lparr>database := database p @ [row]\<rparr>)
                                         (DATA s)\<rparr>))"
    using assms(1,2)
    by (simp add: add_db_row_def require_login_def b c Let_def
        assms(5) [symmetric] assms(6) [symmetric] row)
  moreover have "\<forall>(key, val) \<in> set row. val \<noteq> []"
  proof (cases "new_col = []")
    case True
    then show ?thesis using kept_fields_values [of "req_form r"] by (simp add: row)
  next
    case False
    with assms(7) have nv: "new_val \<noteq> []" by simp
    have "set (AList.update new_col new_val al) \<subseteq> insert (new_col, new_val) (set al)" for al
      by (induction al) auto
    then have "set row \<subseteq> insert (new_col, new_val) (set (kept_fields (req_form r)))"
      using False by (simp add: row)
    then show ?thesis
      using kept_fields_values [of "req_form r"] nv by blast
  qed
  ultimately show ?thesis ..
qed

text \<open>
  The example of the claim: after a row with \<^verbatim>\<open>Status\<close> \<^verbatim>\<open>Done\<close>, a form with an
  empty \<^verbatim>\<open>Status\<close> and \<^verbatim>\<open>Owner\<close> \<^verbatim>\<open>Dana\<close> leaves the two rows of the claim.
\<close>

theorem add_db_row_appends_witness:
  "add_db_row (logged_in [(''Status'', [''Done''])]) ''root'' home_state
     = Inr (RedirectResponse ''/page/root/database'' 302, home_with_rows [[(''Status'', ''Done'')]])
   \<and> add_db_row (logged_in [(''Status'', [[]]), (''Owner'', [''Dana''])]) ''root''
       (home_with_rows [[(''Status'', ''Done'')]])
     = Inr (RedirectResponse ''/page/root/database'' 302,
            home_with_rows [[(''Status'', ''Done'')], [(''Owner'', ''Dana'')]])"
proof -
  have one: "add_db_row (logged_in [(''Status'', [''Done''])]) ''root'' home_state
     = Inr (RedirectResponse ''/page/root/database'' 302, home_with_rows [[(''Status'', ''Done'')]])"
    by (simp add: add_db_row_def logged_in_def require_login_def home_state_def default_data_def
        home_with_rows_def save_data_def form_get_def first_def strip_def isspace_def Let_def)
  let ?r = "logged_in [(''Status'', [[]]), (''Owner'', [''Dana''])]"
  let ?s = "home_with_rows [[(''Status'', ''Done'')]]"
  let ?p = "\<lparr>title = ''Home'', content = welcome_text, children = [],
             database = [[(''Status'', ''Done'')]]\<rparr>"
  have k: "kept_fields (req_form ?r) = [(''Owner'', ''Dana'')]"
    by (simp add: kept_fields_def logged_in_def strip_def isspace_def)
  have "add_db_row ?r ''root'' ?s =
           Inr (RedirectResponse (''/page/'' @ ''root'' @ ''/database'') 302,
                save_data (?s\<lparr>DATA := AList.update ''root''
                   (?p\<lparr>database := database ?p @ [kept_fields (req_form ?r)]\<rparr>) (DATA ?s)\<rparr>))
         \<and> (\<forall>(key, val) \<in> set (kept_fields (req_form ?r)). val \<noteq> [])"
  proof (rule add_db_row_appends [where new_col = "[]" and new_val = "[]"])
    show "req_user ?r" by (simp add: logged_in_def)
    show "map_of (DATA ?s) ''root'' = Some ?p" by (simp add: home_with_rows_def Let_def)
    show "distinct (map fst (req_form ?r))" by (simp add: logged_in_def)
    show "\<forall>(key, vals) \<in> set (req_form ?r). vals \<noteq> []" by (simp add: logged_in_def)
    show "[] = strip (hd (form_get (req_form ?r) ''new_col'' [[]]))"
      by (simp add: logged_in_def form_get_def strip_def)
    show "[] = strip (hd (form_get (req_form ?r) ''new_val'' [[]]))"
      by (simp add: logged_in_def form_get_def strip_def)
    show "[] = [] \<or> [] \<noteq> ([] :: string)" by simp
    show "kept_fields (req_form ?r) =
        (if [] = [] then kept_fields (req_form ?r)
         else if [] \<in> fst ` set (kept_fields (req_form ?r))
         then map (\<lambda>(key, val). if key = [] then (key, []) else (key, val))
                (kept_fields (req_form ?r))
         else kept_fields (req_form ?r) @ [([], [])])"
      by simp
  qed
  then have "add_db_row ?r ''root'' ?s
     = Inr (RedirectResponse ''/page/root/database'' 302,
            home_with_rows [[(''Status'', ''Done'')], [(''Owner'', ''Dana'')]])"
    by (simp add: k home_with_rows_def save_data_def Let_def)
  with one show ?thesis by simp
qed

text \<open>
  The claim as written fails in two places: a value is stored trimmed, not as submitted,
  and the fields \<^verbatim>\<open>new_col\<close> and \<^verbatim>\<open>new_val\<close> are not stored as fields but name a
  column and its value, which also takes the place of a submitted value of that column.
\<close>

theorem add_db_row_appends_counterexample:
  "add_db_row (logged_in [(''Status'', ['' Done ''])]) ''root'' home_state
     = Inr (RedirectResponse ''/page/root/database'' 302, home_with_rows [[(''Status'', ''Done'')]])
   \<and> add_db_row (logged_in [(''new_col'', [''Owner'']), (''new_val'', [''Dana''])]) ''root'' home_state
     = Inr (RedirectResponse ''/page/root/database'' 302, home_with_rows [[(''Owner'', ''Dana'')]])
   \<and> add_db_row (logged_in [(''Status'', [''Done'']), (''Owner'', [''Dana'']),
                             (''new_col'', [''Status'']), (''new_val'', [''Open''])])
        ''root'' home_state
     = Inr (RedirectResponse ''/page/root/database'' 302,
            home_with_rows [[(''Status'', ''Open''), (''Owner'', ''Dana'')]])"
  by (simp add: add_db_row_def logged_in_def require_login_def home_state_def default_data_def
      home_with_rows_def save_data_def form_get_def first_def strip_def isspace_def Let_def)

section \<open>Rendering a page\<close>

lemma render_in_code:
  "\<forall>l \<in> set ls. \<not> is_fence l \<Longrightarrow>
   fold render_line ls (True, parts) = (True, parts @ map (\<lambda>l. html_escape l @ [newline]) ls)"
  by (induction ls arbitrary: parts) (simp_all add: render_line_def)

text \<open>
  C9, as the code has it. A line is a fence when its text, trimmed, begins with three
  backticks, whatever follows them. A line changes \<^verbatim>\<open>in_code\<close> exactly when it is a
  fence; a fence adds to the output only the opening or the closing tag of the
  \<^verbatim>\<open>pre\<close>/\<^verbatim>\<open>code\<close> container, nothing of its own text. Inside a fence, every line that
  is no fence is added escaped and followed by a newline, whatever it looks like; so the
  lines between an opening and a closing fence stand, escaped, between the two tags.
\<close>

theorem render_line_fence:
  "fst (render_line line (in_code, parts)) = (if is_fence line then \<not> in_code else in_code)
   \<and> is_fence line = (\<exists>rest. strip line = ''```'' @ rest)
   \<and> (is_fence line \<longrightarrow>
        snd (render_line line (in_code, parts)) =
          parts @ [if in_code then ''</code></pre>'' else ''<pre><code>''])
   \<and> (\<not> is_fence line \<longrightarrow>
        render_line line (True, parts) = (True, parts @ [html_escape line @ [newline]]))
   \<and> ((\<forall>l \<in> set ls. \<not> is_fence l) \<and> is_fence opening \<and> is_fence closing \<longrightarrow>
        fold render_line (opening # ls @ [closing]) (False, parts) =
          (False, parts @ [''<pre><code>''] @ map (\<lambda>l. html_escape l @ [newline]) ls
                    @ [''</code></pre>'']))"
proof -
  have a: "fst (render_line line (in_code, parts)) = (if is_fence line then \<not> in_code else in_code)"
    by (simp add: render_line_def split: option.splits)
  have b: "is_fence line = (\<exists>rest. strip line = ''```'' @ rest)"
    by (simp add: is_fence_def startswith_iff)
  have c: "is_fence line \<longrightarrow>
      snd (render_line line (in_code, parts)) =
        parts @ [if in_code then ''</code></pre>'' else ''<pre><code>'']"
    by (simp add: render_line_def)
  have d: "\<not> is_fence line \<longrightarrow>
      render_line line (True, parts) = (True, parts @ [html_escape line @ [newline]])"
    by (simp add: render_line_def)
  have e: "(\<forall>l \<in> set ls. \<not> is_fence l) \<and> is_fence opening \<and> is_fence closing \<longrightarrow>
        fold render_line (opening # ls @ [closing]) (False, parts) =
          (False, parts @ [''<pre><code>''] @ map (\<lambda>l. html_escape l @ [newline]) ls
                    @ [''</code></pre>''])"
  proof
    assume h: "(\<forall>l \<in> set ls. \<not> is_fence l) \<and> is_fence opening \<and> is_fence closing"
    have "render_line opening (False, parts) = (True, parts @ [''<pre><code>''])"
      using h by (simp add: render_line_def)
    moreover have "fold render_line ls (True, parts @ [''<pre><code>'']) =
        (True, (parts @ [''<pre><code>'']) @ map (\<lambda>l. html_escape l @ [newline]) ls)"
      using h by (intro render_in_code) simp
    moreover have "render_line closing (True, q) = (False, q @ [''</code></pre>''])" for q
      using h by (simp add: render_line_def)
    ultimately show "fold render_line (opening # ls @ [closing]) (False, parts) =
          (False, parts @ [''<pre><code>''] @ map (\<lambda>l. html_escape l @ [newline]) ls
                    @ [''</code></pre>''])"
      by simp
  qed
  from a b c d e show ?thesis by blast
qed

theorem render_line_fence_witness:
  "is_fence ''  ```'' \<and> \<not> is_fence ''- [ ] <i>'' \<and> is_fence ''```''
   \<and> fst (render_line ''  ```'' (False, [])) = True
   \<and> snd (render_line ''  ```'' (False, [])) = [''<pre><code>'']
   \<and> render_line ''- [ ] <i>'' (True, []) = (True, [''- [ ] &lt;i&gt;'' @ [newline]])
   \<and> fold render_line [''  ```'', ''- [ ] <i>'', ''```''] (False, []) =
        (False, [''<pre><code>'', ''- [ ] &lt;i&gt;'' @ [newline], ''</code></pre>''])"
proof -
  have f: "is_fence ''  ```''" "\<not> is_fence ''- [ ] <i>''" "is_fence ''```''"
    by (simp_all add: is_fence_def startswith_def strip_def isspace_def)
  have esc: "html_escape ''- [ ] <i>'' = ''- [ ] &lt;i&gt;''"
    by (simp add: html_escape_def replace_def dquote_def squote_def)
  note w1 = render_line_fence [of "''  ```''" False "[]" "[]" "''```''" "''```''"]
  note w2 = render_line_fence
    [of "''- [ ] <i>''" True "[]" "[''- [ ] <i>'']" "''  ```''" "''```''"]
  from w1 w2 f esc show ?thesis by simp
qed

text \<open>
  The claim as written fails: a line that has more than the three backticks, such as a
  fence with a language name, changes the state too, and its text is not rendered.
\<close>

theorem render_line_fence_counterexample:
  "render_line ''```python'' (False, []) = (True, [''<pre><code>''])
   \<and> ''```python'' \<noteq> ''```''"
  by (simp add: render_line_def is_fence_def startswith_def strip_def isspace_def)

text \<open>
  C10, as the code has it. Outside a fence, a line of the input that is no fence (its
  trimmed text does not begin with three backticks) becomes one part of the output: the
  disabled unchecked checkbox with the escaped rest of the line when the line begins with
  \<^verbatim>\<open>- [ ] \<close>, the disabled checked checkbox when it begins with \<^verbatim>\<open>- [x] \<close> or
  \<^verbatim>\<open>- [X] \<close>, and otherwise the paragraph of the escaped line, also when the line is
  empty. An input of one such line renders as that part. The four examples of the claim
  render as it says.
\<close>

theorem render_line_outside:
  "(l \<in> set (split_on newline raw) \<and> \<not> is_fence l \<longrightarrow>
      render_line l (False, parts) = (False, parts @
           [if startswith l ''- [ ] '' then unchecked_html (drop 6 l)
            else if startswith l ''- [x] '' \<or> startswith l ''- [X] '' then checked_html (drop 6 l)
            else ''<p>'' @ html_escape l @ ''</p>'']))
   \<and> (newline \<notin> set raw \<and> \<not> is_fence raw \<longrightarrow>
      render_content raw =
           (if startswith raw ''- [ ] '' then unchecked_html (drop 6 raw)
            else if startswith raw ''- [x] '' \<or> startswith raw ''- [X] '' then checked_html (drop 6 raw)
            else ''<p>'' @ html_escape raw @ ''</p>''))
   \<and> render_content ''- [ ] buy milk'' =
        ''<label><input type='' @ [dquote] @ ''checkbox'' @ [dquote] @ '' disabled> buy milk</label><br>''
   \<and> render_content ''- [x] done'' =
        ''<label><input type='' @ [dquote] @ ''checkbox'' @ [dquote] @ '' checked disabled> done</label><br>''
   \<and> render_content ''plain text'' = ''<p>plain text</p>''
   \<and> render_content [] = ''<p></p>''
   \<and> render_content (''```'' @ [newline] @ ''<b>'' @ [newline] @ ''```'') =
        ''<pre><code>'' @ [newline] @ ''&lt;b&gt;'' @ [newline, newline] @ ''</code></pre>''"
proof -
  have line: "render_line l (False, parts) = (False, parts @
           [if startswith l ''- [ ] '' then unchecked_html (drop 6 l)
            else if startswith l ''- [x] '' \<or> startswith l ''- [X] '' then checked_html (drop 6 l)
            else ''<p>'' @ html_escape l @ ''</p>''])"
    if "newline \<notin> set l" "\<not> is_fence l" for l parts
    using that by (simp add: render_line_def match_unchecked_def match_checked_def group1_line)
  have a: "l \<in> set (split_on newline raw) \<and> \<not> is_fence l \<longrightarrow>
      render_line l (False, parts) = (False, parts @
           [if startswith l ''- [ ] '' then unchecked_html (drop 6 l)
            else if startswith l ''- [x] '' \<or> startswith l ''- [X] '' then checked_html (drop 6 l)
            else ''<p>'' @ html_escape l @ ''</p>''])"
    using line split_on_lines by blast
  have b: "newline \<notin> set raw \<and> \<not> is_fence raw \<longrightarrow>
      render_content raw =
           (if startswith raw ''- [ ] '' then unchecked_html (drop 6 raw)
            else if startswith raw ''- [x] '' \<or> startswith raw ''- [X] '' then checked_html (drop 6 raw)
            else ''<p>'' @ html_escape raw @ ''</p>'')"
    by (simp add: render_content_def split_on_single line)
  note ev = render_content_def render_line_def is_fence_def startswith_def strip_def isspace_def
    match_unchecked_def match_checked_def unchecked_html_def checked_html_def group1_def
    newline_def html_escape_def replace_def dquote_def squote_def
  have c: "render_content ''- [ ] buy milk'' =
        ''<label><input type='' @ [dquote] @ ''checkbox'' @ [dquote] @ '' disabled> buy milk</label><br>''"
    by (simp add: ev)
  have d: "render_content ''- [x] done'' =
        ''<label><input type='' @ [dquote] @ ''checkbox'' @ [dquote] @ '' checked disabled> done</label><br>''"
    by (simp add: ev)
  have e: "render_content ''plain text'' = ''<p>plain text</p>''"
    by (simp add: ev)
  have f: "render_content [] = ''<p></p>''"
    by (simp add: ev)
  have g: "render_content (''```'' @ [newline] @ ''<b>'' @ [newline] @ ''```'') =
        ''<pre><code>'' @ [newline] @ ''&lt;b&gt;'' @ [newline, newline] @ ''</code></pre>''"
    by (simp add: ev)
  from a b c d e f g show ?thesis by blast
qed

theorem render_line_outside_witness:
  "''- [X] a&b'' \<in> set (split_on newline (''intro'' @ [newline] @ ''- [X] a&b''))
   \<and> \<not> is_fence ''- [X] a&b''
   \<and> render_line ''- [X] a&b'' (False, [''<p>intro</p>'']) =
       (False, [''<p>intro</p>'',
                ''<label><input type='' @ [dquote] @ ''checkbox'' @ [dquote]
                  @ '' checked disabled> a&amp;b</label><br>''])"
proof -
  have h: "''- [X] a&b'' \<in> set (split_on newline (''intro'' @ [newline] @ ''- [X] a&b''))"
    "\<not> is_fence ''- [X] a&b''"
    by (simp_all add: newline_def is_fence_def startswith_def strip_def isspace_def)
  have v: "checked_html (drop 6 ''- [X] a&b'') =
      ''<label><input type='' @ [dquote] @ ''checkbox'' @ [dquote] @ '' checked disabled> a&amp;b</label><br>''"
    by (simp add: checked_html_def html_escape_def replace_def dquote_def squote_def)
  from render_line_outside
    [of "''- [X] a&b''" "''intro'' @ [newline] @ ''- [X] a&b''" "[''<p>intro</p>'']"] h v
  show ?thesis by (simp add: startswith_def)
qed

text \<open>
  The claim as written fails: outside a fence, a line that is neither a checklist line nor
  the three backticks alone is not always a paragraph.
\<close>

theorem render_line_outside_counterexample:
  "render_content ''```py'' = ''<pre><code>'' \<and> render_content ''```py'' \<noteq> ''<p>```py</p>''"
  by (simp add: render_content_def render_line_def is_fence_def startswith_def strip_def
      isspace_def newline_def)

section \<open>Pruned workspaces\<close>

lemma prune_empty: "prune {} d = d"
  by (induction d) (auto simp: prune_def)

lemma prune_prune': "prune A (prune B d) = prune (B \<union> A) d"
  by (induction d) (auto simp: prune_def)

lemma prune_prune: "prune A (prune B d) = prune (A \<union> B) d"
  by (simp add: prune_prune' Un_commute)

lemma keys_prune: "map fst (prune D d) = filter (\<lambda>pid. pid \<notin> D) (map fst d)"
  by (induction d) (auto simp: prune_def)

lemma set_prune:
  "set (prune D d) =
     {(pid, p\<lparr>children := filter (\<lambda>cid. cid \<notin> D) (children p)\<rparr>) | pid p. (pid, p) \<in> set d \<and> pid \<notin> D}"
  by (auto simp: prune_def image_iff)

lemma map_of_prune:
  "map_of (prune D d) pid =
     (if pid \<in> D then None
      else map_option (\<lambda>p. p\<lparr>children := filter (\<lambda>cid. cid \<notin> D) (children p)\<rparr>) (map_of d pid))"
  by (induction d) (auto simp: prune_def)

lemma child_rel_prune:
  "child_rel (prune D d) = {(pid, cid). (pid, cid) \<in> child_rel d \<and> pid \<notin> D \<and> cid \<notin> D}"
  unfolding child_rel_def set_prune by auto

lemma distinct_keys_prune: "distinct (map fst d) \<Longrightarrow> distinct (map fst (prune D d))"
  by (simp add: keys_prune)

lemma distinct_children_prune: "distinct_children d \<Longrightarrow> distinct_children (prune D d)"
  unfolding distinct_children_def set_prune by auto

lemma in_prune:
  assumes "(pid, q) \<in> set (prune D d)"
  obtains p where "(pid, p) \<in> set d" and "pid \<notin> D"
    and "q = p\<lparr>children := filter (\<lambda>cid. cid \<notin> D) (children p)\<rparr>"
  using assms unfolding set_prune by blast

lemma keys_set_prune: "fst ` set (prune D d) = fst ` set d - D"
proof -
  have "set (map fst (prune D d)) = set (map fst d) - D"
    unfolding keys_prune by auto
  then show ?thesis by simp
qed

lemma no_dangling_prune:
  assumes "no_dangling d"
  shows "no_dangling (prune D d)"
  unfolding no_dangling_def
proof (intro ballI, clarify)
  fix pid q cid
  assume m: "(pid, q) \<in> set (prune D d)" and c: "cid \<in> set (children q)"
  from m obtain p where p: "(pid, p) \<in> set d"
    and q: "q = p\<lparr>children := filter (\<lambda>cid. cid \<notin> D) (children p)\<rparr>"
    by (auto elim: in_prune)
  from c q have "cid \<in> set (children p)" "cid \<notin> D" by simp_all
  moreover from assms p \<open>cid \<in> set (children p)\<close> have "cid \<in> fst ` set d"
    unfolding no_dangling_def by blast
  ultimately show "cid \<in> fst ` set (prune D d)" by (simp add: keys_set_prune)
qed

lemma ranked_prune:
  assumes "ranked r d"
  shows "ranked r (prune D d)"
  unfolding ranked_def
proof (intro ballI, clarify)
  fix pid q cid
  assume m: "(pid, q) \<in> set (prune D d)" and c: "cid \<in> set (children q)"
  from m obtain p where p: "(pid, p) \<in> set d"
    and q: "q = p\<lparr>children := filter (\<lambda>cid. cid \<notin> D) (children p)\<rparr>"
    by (auto elim: in_prune)
  from c q have "cid \<in> set (children p)" by simp
  with assms p show "r cid < r pid" unfolding ranked_def by blast
qed

lemma filter_remove1: "distinct xs \<Longrightarrow> filter (\<lambda>c. c \<noteq> x) xs = remove1 x xs"
  by (induction xs) (auto simp: filter_id_conv)

lemma scrub_delete:
  assumes "distinct_children d"
  shows "AList.delete x (scrub x d) = prune {x} d"
  using assms
proof (induction d)
  case Nil
  then show ?case by (simp add: scrub_def prune_def)
next
  case (Cons a d)
  obtain pid p where a: "a = (pid, p)" by (cases a)
  from Cons.prems a have dp: "distinct (children p)" and dd: "distinct_children d"
    by (auto simp: distinct_children_def)
  have f: "filter (\<lambda>cid. cid \<noteq> x) (children p) = remove1 x (children p)"
    using dp by (rule filter_remove1)
  have g: "x \<notin> set (children p) \<Longrightarrow> p\<lparr>children := remove1 x (children p)\<rparr> = p"
    by (simp add: remove1_idem)
  from Cons.IH [OF dd] have ih: "AList.delete x (scrub x d) = prune {x} d" .
  have "AList.delete x (scrub x (a # d)) =
      (if pid = x then AList.delete x (scrub x d)
       else (pid, p\<lparr>children := remove1 x (children p)\<rparr>) # AList.delete x (scrub x d))"
    using g by (auto simp: a scrub_def)
  also have "\<dots> = prune {x} (a # d)"
    using f by (auto simp: a ih prune_def)
  finally show ?case .
qed

section \<open>Reachability along the children links\<close>

lemma finite_child_rel: "finite (child_rel d)"
proof -
  have "child_rel d \<subseteq> fst ` set d \<times> \<Union> ((\<lambda>(pid, p). set (children p)) ` set d)"
    by (force simp: child_rel_def)
  moreover have "finite (fst ` set d \<times> \<Union> ((\<lambda>(pid, p). set (children p)) ` set d))"
    by auto
  ultimately show ?thesis by (rule finite_subset)
qed

lemma ranked_acyclic:
  assumes "ranked r d"
  shows "acyclic (child_rel d)"
proof -
  from assms have "(child_rel d)\<inverse> \<subseteq> measure r"
    by (auto simp: ranked_def child_rel_def)
  then have "wf ((child_rel d)\<inverse>)"
    by (rule wf_subset [OF wf_measure])
  then have "acyclic ((child_rel d)\<inverse>)" by (rule wf_acyclic)
  then show ?thesis by simp
qed

lemma acyclic_ranked:
  assumes "acyclic (child_rel d)"
  shows "\<exists>r. ranked r d"
proof -
  let ?R = "child_rel d"
  define r :: "string \<Rightarrow> nat" where "r x = card (?R\<^sup>+ `` {x})" for x
  have fin: "finite (?R\<^sup>+ `` {x})" for x
  proof -
    have "finite (?R\<^sup>+)" using finite_child_rel by simp
    then have "finite (snd ` (?R\<^sup>+))" by simp
    moreover have "?R\<^sup>+ `` {x} \<subseteq> snd ` (?R\<^sup>+)" by force
    ultimately show ?thesis by (rule rev_finite_subset)
  qed
  have "r cid < r pid" if e: "(pid, cid) \<in> ?R" for pid cid
  proof -
    have "?R\<^sup>+ `` {cid} \<subseteq> ?R\<^sup>+ `` {pid}"
      using e by (auto intro: trancl_into_trancl2)
    moreover have "cid \<in> ?R\<^sup>+ `` {pid}" using e by auto
    moreover have "cid \<notin> ?R\<^sup>+ `` {cid}" using assms by (auto simp: acyclic_def)
    ultimately have "?R\<^sup>+ `` {cid} \<subset> ?R\<^sup>+ `` {pid}" by blast
    then show ?thesis unfolding r_def using fin by (intro psubset_card_mono)
  qed
  then have "ranked r d" by (auto simp: ranked_def child_rel_def)
  then show ?thesis by blast
qed

lemma reach_unfold: "R\<^sup>* `` {x} = insert x (R\<^sup>* `` (R `` {x}))"
proof
  show "R\<^sup>* `` {x} \<subseteq> insert x (R\<^sup>* `` (R `` {x}))"
  proof
    fix y assume "y \<in> R\<^sup>* `` {x}"
    then have "(x, y) \<in> R\<^sup>*" by simp
    then show "y \<in> insert x (R\<^sup>* `` (R `` {x}))"
      by (cases rule: converse_rtranclE) auto
  qed
  show "insert x (R\<^sup>* `` (R `` {x})) \<subseteq> R\<^sup>* `` {x}"
    by (auto intro: converse_rtrancl_into_rtrancl)
qed

lemma reach_closed: "R `` (R\<^sup>* `` A) \<subseteq> R\<^sup>* `` A"
  by (auto intro: rtrancl_into_rtrancl)

lemma reach_restrict:
  assumes closed: "R `` E \<subseteq> E" and c: "c \<notin> E"
  shows "{(x, y). (x, y) \<in> R \<and> x \<notin> E \<and> y \<notin> E}\<^sup>* `` {c} = R\<^sup>* `` {c} - E"
proof -
  let ?R' = "{(x, y). (x, y) \<in> R \<and> x \<notin> E \<and> y \<notin> E}"
  have "(c, y) \<in> R\<^sup>* \<and> y \<notin> E" if "(c, y) \<in> ?R'\<^sup>*" for y
    using that
  proof (induction rule: rtrancl_induct)
    case base
    then show ?case using c by simp
  next
    case (step y z)
    then show ?case by (auto intro: rtrancl_into_rtrancl)
  qed
  moreover have "y \<notin> E \<longrightarrow> (c, y) \<in> ?R'\<^sup>*" if "(c, y) \<in> R\<^sup>*" for y
    using that
  proof (induction rule: rtrancl_induct)
    case base
    then show ?case by simp
  next
    case (step y z)
    show ?case
    proof
      assume z: "z \<notin> E"
      with step.hyps(2) closed have y: "y \<notin> E" by blast
      with step.IH have "(c, y) \<in> ?R'\<^sup>*" by simp
      moreover from step.hyps(2) y z have "(y, z) \<in> ?R'" by simp
      ultimately show "(c, z) \<in> ?R'\<^sup>*" by (rule rtrancl_into_rtrancl)
    qed
  qed
  ultimately show ?thesis by blast
qed

lemma children_image:
  assumes "distinct (map fst d)" and "map_of d x = Some p"
  shows "child_rel d `` {x} = set (children p)"
proof -
  from assms have "\<And>q. (x, q) \<in> set d \<longleftrightarrow> q = p"
    by (metis map_of_eq_Some_iff option.inject)
  then show ?thesis by (auto simp: child_rel_def)
qed

lemma child_rel_keys: "(x, y) \<in> child_rel d \<Longrightarrow> x \<in> fst ` set d"
  by (force simp: child_rel_def)

section \<open>What deleting a page leaves\<close>

lemma closed_reach:
  assumes "R `` E \<subseteq> E" and "c \<in> E"
  shows "R\<^sup>* `` {c} \<subseteq> E"
proof
  fix y assume "y \<in> R\<^sup>* `` {c}"
  then have "(c, y) \<in> R\<^sup>*" by simp
  then show "y \<in> E"
    using assms by (induction rule: rtrancl_induct) auto
qed

lemma doomed_after_prune:
  assumes closed: "child_rel d `` E \<subseteq> E" and key: "c \<in> fst ` set d"
  shows "E \<union> (if c \<in> fst ` set (prune E d) then descendants (prune E d) c else {})
         = E \<union> (child_rel d)\<^sup>* `` {c}"
proof (cases "c \<in> E")
  case True
  then have "c \<notin> fst ` set (prune E d)" by (simp add: keys_set_prune)
  moreover from closed True have "(child_rel d)\<^sup>* `` {c} \<subseteq> E" by (rule closed_reach)
  ultimately show ?thesis by auto
next
  case False
  with key have "c \<in> fst ` set (prune E d)" by (simp add: keys_set_prune)
  moreover have "descendants (prune E d) c = (child_rel d)\<^sup>* `` {c} - E"
    unfolding descendants_def child_rel_prune using closed False by (rule reach_restrict)
  ultimately show ?thesis by auto
qed

lemma delete_children:
  assumes IH: "\<And>x s. distinct (map fst (DATA s)) \<Longrightarrow> distinct_children (DATA s) \<Longrightarrow>
      no_dangling (DATA s) \<Longrightarrow> ranked r (DATA s) \<Longrightarrow> r x < n \<Longrightarrow>
      \<exists>s'. delete_page n x s = Some s'
        \<and> DATA s' = prune (if x \<in> fst ` set (DATA s) then descendants (DATA s) x else {}) (DATA s)"
    and d0: "distinct (map fst d0)" "distinct_children d0" "no_dangling d0" "ranked r d0"
  shows "child_rel d0 `` E \<subseteq> E \<Longrightarrow> DATA s = prune E d0 \<Longrightarrow>
    \<forall>c \<in> set cs. r c < n \<and> c \<in> fst ` set d0 \<Longrightarrow>
    \<exists>s'. for_each (delete_page n) cs s = Some s'
       \<and> DATA s' = prune (E \<union> (child_rel d0)\<^sup>* `` set cs) d0"
proof (induction cs arbitrary: s E)
  case Nil
  then show ?case by simp
next
  case (Cons c cs)
  let ?R = "child_rel d0"
  from Cons.prems have c: "r c < n" "c \<in> fst ` set d0" by simp_all
  have wf: "distinct (map fst (DATA s))" "distinct_children (DATA s)"
    "no_dangling (DATA s)" "ranked r (DATA s)"
    using d0 unfolding Cons.prems(2)
    by (simp_all add: distinct_keys_prune distinct_children_prune no_dangling_prune ranked_prune)
  from IH [OF wf c(1)] obtain s1 where s1: "delete_page n c s = Some s1"
    and d1: "DATA s1 = prune (if c \<in> fst ` set (DATA s) then descendants (DATA s) c else {}) (DATA s)"
    by blast
  let ?E = "E \<union> ?R\<^sup>* `` {c}"
  have "DATA s1 = prune ?E d0"
    using doomed_after_prune [OF Cons.prems(1) c(2)]
    unfolding d1 Cons.prems(2) prune_prune by (simp add: Un_commute)
  moreover have "?R `` ?E \<subseteq> ?E"
    using Cons.prems(1) reach_closed [of ?R "{c}"] by blast
  moreover from Cons.prems(3) have "\<forall>c \<in> set cs. r c < n \<and> c \<in> fst ` set d0" by simp
  ultimately obtain s' where "for_each (delete_page n) cs s1 = Some s'"
    and "DATA s' = prune (?E \<union> ?R\<^sup>* `` set cs) d0"
    using Cons.IH [of ?E s1] by blast
  moreover have "?E \<union> ?R\<^sup>* `` set cs = E \<union> ?R\<^sup>* `` set (c # cs)" by auto
  ultimately show ?case using s1 by simp
qed

lemma delete_page_ranked:
  "distinct (map fst (DATA s)) \<Longrightarrow> distinct_children (DATA s) \<Longrightarrow> no_dangling (DATA s) \<Longrightarrow>
   ranked r (DATA s) \<Longrightarrow> r x < n \<Longrightarrow>
   \<exists>s'. delete_page n x s = Some s'
     \<and> DATA s' = prune (if x \<in> fst ` set (DATA s) then descendants (DATA s) x else {}) (DATA s)"
proof (induction n arbitrary: x s)
  case 0
  then show ?case by simp
next
  case (Suc n)
  let ?d = "DATA s"
  let ?R = "child_rel ?d"
  show ?case
  proof (cases "map_of ?d x")
    case None
    then have "x \<notin> fst ` set ?d" by (simp add: map_of_eq_None_iff)
    with None show ?thesis by (simp add: prune_empty)
  next
    case (Some p)
    then have mem: "(x, p) \<in> set ?d" by (rule map_of_SomeD)
    then have key: "x \<in> fst ` set ?d" by force
    have kids: "\<forall>c \<in> set (children p). r c < n \<and> c \<in> fst ` set ?d"
    proof
      fix c assume c: "c \<in> set (children p)"
      with Suc.prems(4) mem have "r c < r x" unfolding ranked_def by blast
      with Suc.prems(5) have "r c < n" by simp
      moreover from Suc.prems(3) mem c have "c \<in> fst ` set ?d"
        unfolding no_dangling_def by blast
      ultimately show "r c < n \<and> c \<in> fst ` set ?d" ..
    qed
    have "\<exists>s1. for_each (delete_page n) (children p) s = Some s1
       \<and> DATA s1 = prune ({} \<union> ?R\<^sup>* `` set (children p)) ?d"
    proof (rule delete_children [where r = r])
      show "\<exists>s'. delete_page n x s = Some s'
          \<and> DATA s' = prune (if x \<in> fst ` set (DATA s) then descendants (DATA s) x else {}) (DATA s)"
        if "distinct (map fst (DATA s))" "distinct_children (DATA s)"
          "no_dangling (DATA s)" "ranked r (DATA s)" "r x < n" for x s
        using that by (rule Suc.IH)
      show "?R `` {} \<subseteq> {}" by simp
      show "DATA s = prune {} ?d" by (simp add: prune_empty)
    qed (use Suc.prems kids in simp_all)
    then obtain s1 where run: "for_each (delete_page n) (children p) s = Some s1"
      and d1: "DATA s1 = prune (?R\<^sup>* `` set (children p)) ?d"
      by auto
    have "distinct_children (DATA s1)"
      unfolding d1 using Suc.prems(2) by (rule distinct_children_prune)
    then have "AList.delete x (scrub x (DATA s1)) = prune {x} (DATA s1)"
      by (rule scrub_delete)
    also have "\<dots> = prune (insert x (?R\<^sup>* `` set (children p))) ?d"
      unfolding d1 prune_prune by simp
    also have "insert x (?R\<^sup>* `` set (children p)) = descendants ?d x"
      unfolding descendants_def
      using reach_unfold [of ?R x] children_image [OF Suc.prems(1) Some] by simp
    finally have "AList.delete x (scrub x (DATA s1)) = prune (descendants ?d x) ?d" .
    with Some run key show ?thesis by (simp add: save_data_def)
  qed
qed

lemma delete_page_saved:
  "delete_page n x s = Some s' \<Longrightarrow> x \<in> fst ` set (DATA s) \<Longrightarrow>
   DATA_FILE s' = Some (Json (DATA s'))"
  by (cases n)
    (auto simp: save_data_def map_of_eq_None_iff split: option.splits if_splits)

text \<open>
  C2, as the code has it. In a workspace with no dangling child, no cycle and no children
  list that names an id twice, deleting a page \<open>x\<close> of the workspace returns as soon as
  the recursion may go deep enough, and what it leaves is the workspace pruned of the
  pages reachable from \<open>x\<close>: these entries are gone, the surviving entries keep their
  order, each surviving page keeps its title, content and rows, and its children list is
  the old one without the deleted ids (so \<open>x\<close> is in no children list any more); the
  file holds the result.
\<close>

theorem delete_page_subtree:
  assumes "distinct (map fst (DATA s))" and "no_dangling (DATA s)"
    and "acyclic (child_rel (DATA s))" and "distinct_children (DATA s)"
    and "x \<in> fst ` set (DATA s)"
  shows "\<exists>n. \<forall>m \<ge> n. \<exists>s'. delete_page m x s = Some s'
     \<and> DATA s' = prune (descendants (DATA s) x) (DATA s)
     \<and> map fst (DATA s') = filter (\<lambda>pid. pid \<notin> descendants (DATA s) x) (map fst (DATA s))
     \<and> (\<forall>pid p. map_of (DATA s) pid = Some p \<and> pid \<notin> descendants (DATA s) x \<longrightarrow>
           map_of (DATA s') pid =
             Some (p\<lparr>children := filter (\<lambda>cid. cid \<notin> descendants (DATA s) x) (children p)\<rparr>))
     \<and> (\<forall>(pid, p) \<in> set (DATA s'). x \<notin> set (children p))
     \<and> DATA_FILE s' = Some (Json (DATA s'))"
proof -
  from assms(3) obtain r where r: "ranked r (DATA s)"
    using acyclic_ranked by blast
  let ?D = "descendants (DATA s) x"
  have "\<exists>s'. delete_page m x s = Some s'
     \<and> DATA s' = prune ?D (DATA s)
     \<and> map fst (DATA s') = filter (\<lambda>pid. pid \<notin> ?D) (map fst (DATA s))
     \<and> (\<forall>pid p. map_of (DATA s) pid = Some p \<and> pid \<notin> ?D \<longrightarrow>
           map_of (DATA s') pid = Some (p\<lparr>children := filter (\<lambda>cid. cid \<notin> ?D) (children p)\<rparr>))
     \<and> (\<forall>(pid, p) \<in> set (DATA s'). x \<notin> set (children p))
     \<and> DATA_FILE s' = Some (Json (DATA s'))"
    if m: "Suc (r x) \<le> m" for m
  proof -
    from m have "r x < m" by simp
    from delete_page_ranked [OF assms(1,4,2) r this] assms(5)
    obtain s' where run: "delete_page m x s = Some s'" and d: "DATA s' = prune ?D (DATA s)"
      by auto
    have xD: "x \<in> ?D" by (simp add: descendants_def)
    have "\<forall>(pid, p) \<in> set (DATA s'). x \<notin> set (children p)"
      unfolding d set_prune using xD by auto
    moreover have "DATA_FILE s' = Some (Json (DATA s'))"
      using run assms(5) by (rule delete_page_saved)
    ultimately show ?thesis
      using run d by (simp add: keys_prune map_of_prune)
  qed
  then show ?thesis by blast
qed

lemma reach_leaf: "R `` {x} = {} \<Longrightarrow> R\<^sup>* `` {x} = {x}"
  using reach_unfold [of R x] by simp

lemma eventually_some:
  assumes "\<exists>n. \<forall>m \<ge> n. \<exists>s'. P m s'" and "\<And>m s'. P m s' \<Longrightarrow> Q m s'"
  shows "\<exists>n. \<forall>m \<ge> n. \<exists>s'. Q m s'"
  using assms by blast

theorem delete_page_subtree_witness:
  "distinct (map fst (DATA tree_state)) \<and> no_dangling (DATA tree_state)
   \<and> acyclic (child_rel (DATA tree_state)) \<and> distinct_children (DATA tree_state)
   \<and> ''a'' \<in> fst ` set (DATA tree_state)
   \<and> descendants (DATA tree_state) ''a'' = {''a'', ''c''}
   \<and> (\<exists>n. \<forall>m \<ge> n. \<exists>s'. delete_page m ''a'' tree_state = Some s'
         \<and> DATA s' = [(''r'', blank_page ''Home'' [''b'']), (''b'', blank_page ''B'' [])]
         \<and> DATA_FILE s' = Some (Json (DATA s')))"
proof -
  let ?d = "DATA tree_state"
  have h1: "distinct (map fst ?d)" by (simp add: tree_state_def)
  have h2: "no_dangling ?d" by (simp add: tree_state_def no_dangling_def blank_page_def)
  have "ranked tree_rank ?d"
    by (simp add: tree_state_def ranked_def blank_page_def tree_rank_def)
  then have h3: "acyclic (child_rel ?d)" by (rule ranked_acyclic)
  have h4: "distinct_children ?d"
    by (simp add: tree_state_def distinct_children_def blank_page_def)
  have h5: "''a'' \<in> fst ` set ?d" by (simp add: tree_state_def)
  have ca: "child_rel ?d `` {''a''} = {''c''}"
    using children_image [OF h1, of "''a''" "blank_page ''A'' [''c'']"]
    by (simp add: tree_state_def blank_page_def)
  have cc: "child_rel ?d `` {''c''} = {}"
    using children_image [OF h1, of "''c''" "blank_page ''C'' []"]
    by (simp add: tree_state_def blank_page_def)
  have D: "descendants ?d ''a'' = {''a'', ''c''}"
    unfolding descendants_def
    using reach_unfold [of "child_rel ?d" "''a''"] reach_leaf [OF cc] by (simp add: ca)
  have P: "prune {''a'', ''c''} ?d = [(''r'', blank_page ''Home'' [''b'']), (''b'', blank_page ''B'' [])]"
    by (simp add: prune_def tree_state_def blank_page_def)
  have "\<exists>n. \<forall>m \<ge> n. \<exists>s'. delete_page m ''a'' tree_state = Some s'
         \<and> DATA s' = [(''r'', blank_page ''Home'' [''b'']), (''b'', blank_page ''B'' [])]
         \<and> DATA_FILE s' = Some (Json (DATA s'))"
    by (rule eventually_some [OF delete_page_subtree [OF h1 h2 h3 h4 h5]]) (simp add: D P)
  with h1 h2 h3 h4 h5 D show ?thesis by simp
qed

text \<open>
  The claim as written fails: the workspace \<open>twice_state\<close> has no dangling child and no
  cycle, but its page \<^verbatim>\<open>p\<close> names the child \<^verbatim>\<open>c\<close> twice, and after deleting \<^verbatim>\<open>c\<close>
  the page \<^verbatim>\<open>p\<close> still names it.
\<close>

theorem delete_page_subtree_counterexample:
  "no_dangling (DATA twice_state) \<and> acyclic (child_rel (DATA twice_state))
   \<and> delete_page 3 ''c'' twice_state =
       Some \<lparr>DATA = [(''p'', blank_page ''P'' [''c''])],
             DATA_FILE = Some (Json [(''p'', blank_page ''P'' [''c''])])\<rparr>"
proof -
  have "ranked (\<lambda>pid. if pid = ''p'' then 1 else 0) (DATA twice_state)"
    by (simp add: twice_state_def ranked_def blank_page_def)
  then have "acyclic (child_rel (DATA twice_state))" by (rule ranked_acyclic)
  moreover have "no_dangling (DATA twice_state)"
    by (simp add: twice_state_def no_dangling_def blank_page_def)
  moreover have "delete_page 3 ''c'' twice_state =
       Some \<lparr>DATA = [(''p'', blank_page ''P'' [''c''])],
             DATA_FILE = Some (Json [(''p'', blank_page ''P'' [''c''])])\<rparr>"
    by (simp add: numeral_3_eq_3 twice_state_def blank_page_def scrub_def save_data_def)
  ultimately show ?thesis by simp
qed

section \<open>Sequences of additions and deletions\<close>

lemma for_each_keeps:
  assumes step: "\<And>x s s'. f x s = Some s' \<Longrightarrow> I s \<Longrightarrow> I s' \<and> R s' \<subseteq> R s"
  shows "for_each f xs s = Some s' \<Longrightarrow> I s \<Longrightarrow> I s' \<and> R s' \<subseteq> R s"
proof (induction xs arbitrary: s)
  case Nil
  then show ?case by simp
next
  case (Cons x xs)
  from Cons.prems(1) obtain s1 where s1: "f x s = Some s1" and rest: "for_each f xs s1 = Some s'"
    by (auto split: option.splits)
  from step [OF s1 Cons.prems(2)] have "I s1" and "R s1 \<subseteq> R s" by simp_all
  moreover from Cons.IH [OF rest \<open>I s1\<close>] have "I s'" and "R s' \<subseteq> R s1" by simp_all
  ultimately show ?case by blast
qed

lemma delete_page_keeps:
  "delete_page n x s = Some s' \<Longrightarrow>
   distinct (map fst (DATA s)) \<and> no_dangling (DATA s) \<and> distinct_children (DATA s) \<Longrightarrow>
   (distinct (map fst (DATA s')) \<and> no_dangling (DATA s') \<and> distinct_children (DATA s'))
   \<and> child_rel (DATA s') \<subseteq> child_rel (DATA s)"
proof (induction n arbitrary: x s s')
  case 0
  then show ?case by (simp split: if_splits)
next
  case (Suc n)
  show ?case
  proof (cases "map_of (DATA s) x")
    case None
    with Suc.prems show ?thesis by simp
  next
    case (Some p)
    with Suc.prems(1) obtain s1 where run: "for_each (delete_page n) (children p) s = Some s1"
      and s': "s' = save_data (s1\<lparr>DATA := AList.delete x (scrub x (DATA s1))\<rparr>)"
      by (auto split: option.splits)
    have mid: "(distinct (map fst (DATA s1)) \<and> no_dangling (DATA s1) \<and> distinct_children (DATA s1))
        \<and> child_rel (DATA s1) \<subseteq> child_rel (DATA s)"
      using run Suc.prems(2)
      by (rule for_each_keeps [where f = "delete_page n", rotated]) (rule Suc.IH)
    then have "AList.delete x (scrub x (DATA s1)) = prune {x} (DATA s1)"
      by (simp add: scrub_delete)
    then have d: "DATA s' = prune {x} (DATA s1)"
      by (simp add: s' save_data_def)
    have "child_rel (DATA s') \<subseteq> child_rel (DATA s1)"
      unfolding d child_rel_prune by auto
    with mid show ?thesis
      unfolding d
      by (auto simp: distinct_keys_prune no_dangling_prune distinct_children_prune)
  qed
qed

lemma add_page_lookup:
  fixes uuid4 t :: string and parent_id :: "string option" and s :: state
  assumes "uuid4 \<notin> fst ` set (DATA s)" and "parent_id \<noteq> Some uuid4"
  defines "d' \<equiv> DATA (snd (add_page uuid4 t parent_id s))"
  shows "map fst d' = map fst (DATA s) @ [uuid4]"
    and "map_of d' uuid4 = Some \<lparr>title = title_or_default t, content = [], children = [], database = []\<rparr>"
    and "pid \<noteq> uuid4 \<Longrightarrow> map_of d' pid =
           (if parent_id = Some pid \<and> pid \<noteq> []
            then map_option (\<lambda>p. p\<lparr>children := children p @ [uuid4]\<rparr>) (map_of (DATA s) pid)
            else map_of (DATA s) pid)"
proof -
  define new where "new = \<lparr>title = title_or_default t, content = [], children = [], database = []\<rparr>"
  define d1 where "d1 = AList.update uuid4 new (DATA s)"
  have k1: "map fst d1 = map fst (DATA s) @ [uuid4]"
    using assms(1) by (simp add: d1_def update_keys)
  have m1: "map_of d1 = (map_of (DATA s))(uuid4 \<mapsto> new)"
    unfolding d1_def by (rule update_conv')
  have both: "map fst d' = map fst (DATA s) @ [uuid4] \<and> map_of d' uuid4 = Some new
     \<and> (\<forall>pid. pid \<noteq> uuid4 \<longrightarrow> map_of d' pid =
           (if parent_id = Some pid \<and> pid \<noteq> []
            then map_option (\<lambda>p. p\<lparr>children := children p @ [uuid4]\<rparr>) (map_of (DATA s) pid)
            else map_of (DATA s) pid))"
  proof (cases "\<exists>par p. parent_id = Some par \<and> par \<noteq> [] \<and> map_of d1 par = Some p")
    case False
    then have "d' = d1"
      by (auto simp: d'_def add_page_def Let_def d1_def new_def save_data_def split: option.splits)
    moreover from False have "\<And>pid. pid \<noteq> uuid4 \<Longrightarrow> parent_id = Some pid \<and> pid \<noteq> [] \<Longrightarrow>
        map_of (DATA s) pid = None"
      by (auto simp: m1)
    ultimately show ?thesis using k1 by (auto simp: m1)
  next
    case True
    then obtain par p where par: "parent_id = Some par" "par \<noteq> []" "map_of d1 par = Some p"
      by blast
    from par assms(2) have ne: "par \<noteq> uuid4" by auto
    with par have old: "map_of (DATA s) par = Some p" by (simp add: m1)
    define d2 where "d2 = AList.update par (p\<lparr>children := children p @ [uuid4]\<rparr>) d1"
    have m2: "map_of d2 = (map_of d1)(par \<mapsto> p\<lparr>children := children p @ [uuid4]\<rparr>)"
      unfolding d2_def by (rule update_conv')
    from par have "d' = d2"
      by (simp add: d'_def add_page_def Let_def d1_def [symmetric] new_def [symmetric] d2_def
          save_data_def)
    moreover have "map fst d2 = map fst (DATA s) @ [uuid4]"
    proof -
      from par have "map_of d1 par \<noteq> None" by simp
      then have "par \<in> fst ` set d1" by (simp add: map_of_eq_None_iff)
      then have "map fst d2 = map fst d1" by (simp add: d2_def update_keys)
      with k1 show ?thesis by simp
    qed
    ultimately show ?thesis using ne par old by (auto simp: m2 m1)
  qed
  from both show "map fst d' = map fst (DATA s) @ [uuid4]" by simp
  from both show "map_of d' uuid4 = Some \<lparr>title = title_or_default t, content = [], children = [], database = []\<rparr>"
    by (simp add: new_def)
  from both show "pid \<noteq> uuid4 \<Longrightarrow> map_of d' pid =
           (if parent_id = Some pid \<and> pid \<noteq> []
            then map_option (\<lambda>p. p\<lparr>children := children p @ [uuid4]\<rparr>) (map_of (DATA s) pid)
            else map_of (DATA s) pid)"
    by simp
qed

lemma add_page_keeps:
  fixes uuid4 t :: string and parent_id :: "string option" and s :: state
  assumes fresh: "uuid4 \<notin> fst ` set (DATA s)" "parent_id \<noteq> Some uuid4"
    and inv: "distinct (map fst (DATA s)) \<and> no_dangling (DATA s) \<and> distinct_children (DATA s)"
  defines "d' \<equiv> DATA (snd (add_page uuid4 t parent_id s))"
  shows "(distinct (map fst d') \<and> no_dangling d' \<and> distinct_children d')
     \<and> (acyclic (child_rel (DATA s)) \<longrightarrow> acyclic (child_rel d'))"
proof -
  let ?d = "DATA s"
  note look = add_page_lookup [OF fresh, where t = t, folded d'_def]
  have keys: "fst ` set d' = insert uuid4 (fst ` set ?d)"
  proof -
    have "set (map fst d') = insert uuid4 (set (map fst ?d))" by (simp add: look(1))
    then show ?thesis by simp
  qed
  have dk: "distinct (map fst d')"
    using inv fresh(1) by (simp add: look(1))
  have kid_key: "c \<in> fst ` set ?d" if "(k, p) \<in> set ?d" "c \<in> set (children p)" for k p c
    using inv that unfolding no_dangling_def by blast
  have kid_distinct: "distinct (children p)" if "(k, p) \<in> set ?d" for k p
    using inv that unfolding distinct_children_def by blast
  have entry: "(k = uuid4 \<and> children q = [])
      \<or> (\<exists>p. (k, p) \<in> set ?d
            \<and> (children q = children p \<or> children q = children p @ [uuid4] \<and> parent_id = Some k))"
    if "(k, q) \<in> set d'" for k q
  proof (cases "k = uuid4")
    case True
    from that dk have "map_of d' k = Some q" by simp
    with True look(2) have "children q = []" by auto
    with True show ?thesis by simp
  next
    case False
    from that dk have q: "map_of d' k = Some q" by simp
    show ?thesis
    proof (cases "parent_id = Some k \<and> k \<noteq> []")
      case True
      with q look(3) [OF False] obtain p where "map_of ?d k = Some p"
        and "q = p\<lparr>children := children p @ [uuid4]\<rparr>"
        by auto
      with True show ?thesis by (auto dest: map_of_SomeD)
    next
      case no: False
      with q look(3) [OF False] have "map_of ?d k = Some q" by auto
      then show ?thesis by (auto dest: map_of_SomeD)
    qed
  qed
  have nd: "no_dangling d'"
    unfolding no_dangling_def keys
  proof (intro ballI, clarify)
    fix k q c assume m: "(k, q) \<in> set d'" and c: "c \<in> set (children q)" and "c \<notin> fst ` set ?d"
    with entry [OF m] show "c = uuid4" by (auto dest: kid_key)
  qed
  have dc: "distinct_children d'"
    unfolding distinct_children_def
  proof (intro ballI, clarify)
    fix k q assume m: "(k, q) \<in> set d'"
    from entry [OF m] fresh(1) show "distinct (children q)"
      by (auto dest: kid_key simp: kid_distinct)
  qed
  have rel: "child_rel d' \<subseteq> child_rel ?d \<union> {(k, c). parent_id = Some k \<and> c = uuid4}"
  proof
    fix e assume "e \<in> child_rel d'"
    then obtain k c q where e: "e = (k, c)" and m: "(k, q) \<in> set d'" and c: "c \<in> set (children q)"
      by (auto simp: child_rel_def)
    from entry [OF m] c have "(k, c) \<in> child_rel ?d \<or> parent_id = Some k \<and> c = uuid4"
      by (auto simp: child_rel_def)
    with e show "e \<in> child_rel ?d \<union> {(k, c). parent_id = Some k \<and> c = uuid4}" by simp
  qed
  have ac: "acyclic (child_rel d')" if a: "acyclic (child_rel ?d)"
  proof (cases parent_id)
    case None
    with rel have "child_rel d' \<subseteq> child_rel ?d" by auto
    with a show ?thesis by (rule acyclic_subset)
  next
    case (Some par)
    with rel have sub: "child_rel d' \<subseteq> insert (par, uuid4) (child_rel ?d)" by auto
    have "(uuid4, par) \<notin> (child_rel ?d)\<^sup>*"
    proof
      assume "(uuid4, par) \<in> (child_rel ?d)\<^sup>*"
      then show False
      proof (cases rule: converse_rtranclE)
        case base
        with Some fresh(2) show False by simp
      next
        case (step z)
        then have "uuid4 \<in> fst ` set ?d" by (auto dest: child_rel_keys)
        with fresh(1) show False by simp
      qed
    qed
    with a have "acyclic (insert (par, uuid4) (child_rel ?d))" by simp
    then show ?thesis using sub by (rule acyclic_subset)
  qed
  from dk nd dc ac show ?thesis by simp
qed

lemma steps_keep:
  assumes "steps s0 s"
    and "distinct (map fst (DATA s0)) \<and> no_dangling (DATA s0) \<and> distinct_children (DATA s0)"
  shows "(distinct (map fst (DATA s)) \<and> no_dangling (DATA s) \<and> distinct_children (DATA s))
     \<and> (acyclic (child_rel (DATA s0)) \<longrightarrow> acyclic (child_rel (DATA s)))"
  using assms
proof (induction rule: steps.induct)
  case start
  then show ?case by simp
next
  case (add s uuid4 parent_id t)
  from add.IH [OF add.prems] add_page_keeps [OF add.hyps(2,3), where t = t]
  show ?case by blast
next
  case (del s n page_id s')
  from del.IH [OF del.prems] delete_page_keeps [OF del.hyps(2)]
  show ?case by (blast intro: acyclic_subset)
qed

text \<open>
  C1, as the code has it. Start from a workspace with no dangling child in which no
  children list names an id twice, and apply \<^verbatim>\<open>add_page\<close> and \<^verbatim>\<open>delete_page\<close> calls,
  every generated id being new. After each call that returns, every child id is a key.
  When the children links of the first workspace have no cycle, every \<^verbatim>\<open>delete_page\<close>
  call on a state so reached returns (at every bound on the recursion above some value),
  and \<^verbatim>\<open>add_page\<close> always returns.
\<close>

theorem steps_no_dangling:
  assumes "distinct (map fst (DATA s0))" and "no_dangling (DATA s0)"
    and "distinct_children (DATA s0)" and "steps s0 s"
  shows "no_dangling (DATA s)
     \<and> (acyclic (child_rel (DATA s0)) \<longrightarrow>
          (\<forall>page_id. \<exists>n. \<forall>m \<ge> n. \<exists>s'. delete_page m page_id s = Some s' \<and> no_dangling (DATA s')))"
proof -
  from assms have k: "(distinct (map fst (DATA s)) \<and> no_dangling (DATA s) \<and> distinct_children (DATA s))
     \<and> (acyclic (child_rel (DATA s0)) \<longrightarrow> acyclic (child_rel (DATA s)))"
    by (intro steps_keep) simp_all
  have "\<exists>n. \<forall>m \<ge> n. \<exists>s'. delete_page m page_id s = Some s' \<and> no_dangling (DATA s')"
    if "acyclic (child_rel (DATA s0))" for page_id
  proof -
    from k that obtain r where r: "ranked r (DATA s)"
      using acyclic_ranked by blast
    have "\<exists>s'. delete_page m page_id s = Some s' \<and> no_dangling (DATA s')"
      if "Suc (r page_id) \<le> m" for m
    proof -
      from that have "r page_id < m" by simp
      with k r obtain s' where run: "delete_page m page_id s = Some s'"
        using delete_page_ranked [of s r page_id m] by blast
      with k delete_page_keeps [OF run] show ?thesis by blast
    qed
    then show ?thesis by blast
  qed
  with k show ?thesis by blast
qed

text \<open>
  The scenario of the specification: from the one-page workspace, adding \<^verbatim>\<open>Notes\<close>
  under the root and then deleting the root leaves no page.
\<close>

theorem steps_no_dangling_witness:
  "distinct (map fst (DATA home_state)) \<and> no_dangling (DATA home_state)
   \<and> distinct_children (DATA home_state) \<and> acyclic (child_rel (DATA home_state))
   \<and> steps home_state (snd (add_page ''n1'' ''Notes'' (Some ''root'') home_state))
   \<and> map fst (DATA (snd (add_page ''n1'' ''Notes'' (Some ''root'') home_state))) = [''root'', ''n1'']
   \<and> no_dangling (DATA (snd (add_page ''n1'' ''Notes'' (Some ''root'') home_state)))
   \<and> (\<exists>n. \<forall>m \<ge> n. \<exists>s'.
         delete_page m ''root'' (snd (add_page ''n1'' ''Notes'' (Some ''root'') home_state)) = Some s'
         \<and> no_dangling (DATA s'))
   \<and> delete_page 2 ''root'' (snd (add_page ''n1'' ''Notes'' (Some ''root'') home_state))
       = Some \<lparr>DATA = [], DATA_FILE = Some (Json [])\<rparr>"
proof -
  let ?s = "snd (add_page ''n1'' ''Notes'' (Some ''root'') home_state)"
  have h1: "distinct (map fst (DATA home_state))"
    by (simp add: home_state_def default_data_def)
  have h2: "no_dangling (DATA home_state)"
    by (simp add: home_state_def default_data_def no_dangling_def)
  have h3: "distinct_children (DATA home_state)"
    by (simp add: home_state_def default_data_def distinct_children_def)
  have "ranked (\<lambda>pid. 0) (DATA home_state)"
    by (simp add: home_state_def default_data_def ranked_def)
  then have h4: "acyclic (child_rel (DATA home_state))" by (rule ranked_acyclic)
  have st: "steps home_state ?s"
    by (rule steps.add [OF steps.start]) (simp_all add: home_state_def default_data_def)
  have keys: "map fst (DATA ?s) = [''root'', ''n1'']"
    by (simp add: add_page_def Let_def home_state_def default_data_def save_data_def)
  have run: "delete_page 2 ''root'' ?s = Some \<lparr>DATA = [], DATA_FILE = Some (Json [])\<rparr>"
    by (simp add: numeral_2_eq_2 add_page_def Let_def home_state_def default_data_def
        save_data_def scrub_def title_or_default_def strip_def isspace_def)
  from steps_no_dangling [OF h1 h2 h3 st] h4
  have "no_dangling (DATA ?s)"
    and "\<exists>n. \<forall>m \<ge> n. \<exists>s'. delete_page m ''root'' ?s = Some s' \<and> no_dangling (DATA s')"
    by simp_all
  with h1 h2 h3 h4 st keys run show ?thesis by simp
qed

text \<open>
  The claim as written fails: \<open>twice_state\<close> has no dangling child, and deleting its
  page \<^verbatim>\<open>c\<close> leaves the page \<^verbatim>\<open>p\<close> with the child \<^verbatim>\<open>c\<close>, which is no key any more.
\<close>

theorem steps_no_dangling_counterexample:
  "no_dangling (DATA twice_state)
   \<and> steps twice_state \<lparr>DATA = [(''p'', blank_page ''P'' [''c''])],
                          DATA_FILE = Some (Json [(''p'', blank_page ''P'' [''c''])])\<rparr>
   \<and> \<not> no_dangling [(''p'', blank_page ''P'' [''c''])]"
proof -
  have "delete_page 1 ''c'' twice_state =
       Some \<lparr>DATA = [(''p'', blank_page ''P'' [''c''])],
             DATA_FILE = Some (Json [(''p'', blank_page ''P'' [''c''])])\<rparr>"
    by (simp add: twice_state_def blank_page_def scrub_def save_data_def)
  with steps.start have "steps twice_state \<lparr>DATA = [(''p'', blank_page ''P'' [''c''])],
                          DATA_FILE = Some (Json [(''p'', blank_page ''P'' [''c''])])\<rparr>"
    by (rule steps.del)
  moreover have "no_dangling (DATA twice_state)"
    by (simp add: twice_state_def no_dangling_def blank_page_def)
  moreover have "\<not> no_dangling [(''p'', blank_page ''P'' [''c''])]"
    by (simp add: no_dangling_def blank_page_def)
  ultimately show ?thesis by simp
qed

section \<open>The page tree\<close>

lemma collect_map:
  "\<forall>x \<in> set xs. f x = Some (Inr (g x)) \<Longrightarrow> collect f xs = Some (Inr (map g xs))"
  by (induction xs) simp_all

lemma keys_closed: "no_dangling d \<Longrightarrow> child_rel d `` (fst ` set d) \<subseteq> fst ` set d"
  unfolding no_dangling_def child_rel_def by blast

lemma descendants_keys:
  assumes "no_dangling d" and "x \<in> fst ` set d"
  shows "descendants d x \<subseteq> fst ` set d"
  unfolding descendants_def using keys_closed [OF assms(1)] assms(2) by (rule closed_reach)

lemma descendants_unfold:
  assumes "distinct (map fst d)" and "map_of d x = Some p"
  shows "descendants d x = insert x (\<Union>c \<in> set (children p). descendants d c)"
proof -
  have "(child_rel d)\<^sup>* `` set (children p) = (\<Union>c \<in> set (children p). (child_rel d)\<^sup>* `` {c})"
    by blast
  then show ?thesis
    unfolding descendants_def
    using reach_unfold [of "child_rel d" x] children_image [OF assms] by simp
qed

lemma build_node_ranked:
  assumes d: "distinct (map fst d)" "no_dangling d" "ranked r d"
  shows "pid \<in> fst ` set d \<Longrightarrow> r pid < n \<Longrightarrow>
    \<exists>t. build_node n d pid = Some (Inr t) \<and> node_id t = pid \<and> mirrors d t
       \<and> node_ids t = descendants d pid"
proof (induction n arbitrary: pid)
  case 0
  then show ?case by simp
next
  case (Suc n)
  from Suc.prems(1) obtain p where p: "map_of d pid = Some p"
    by (metis map_of_eq_None_iff not_Some_eq)
  then have mem: "(pid, p) \<in> set d" by (rule map_of_SomeD)
  have "\<forall>c \<in> set (children p). \<exists>t. build_node n d c = Some (Inr t) \<and> node_id t = c
      \<and> mirrors d t \<and> node_ids t = descendants d c"
  proof
    fix c assume c: "c \<in> set (children p)"
    with d(3) mem have "r c < r pid" unfolding ranked_def by blast
    with Suc.prems(2) have "r c < n" by simp
    moreover from d(2) mem c have "c \<in> fst ` set d" unfolding no_dangling_def by blast
    ultimately show "\<exists>t. build_node n d c = Some (Inr t) \<and> node_id t = c
        \<and> mirrors d t \<and> node_ids t = descendants d c"
      by (intro Suc.IH)
  qed
  then have "\<exists>g. \<forall>c \<in> set (children p). build_node n d c = Some (Inr (g c))
      \<and> node_id (g c) = c \<and> mirrors d (g c) \<and> node_ids (g c) = descendants d c"
    by (rule bchoice)
  then obtain g where g: "\<forall>c \<in> set (children p). build_node n d c = Some (Inr (g c))
      \<and> node_id (g c) = c \<and> mirrors d (g c) \<and> node_ids (g c) = descendants d c" ..
  then have "collect (build_node n d) (children p) = Some (Inr (map g (children p)))"
    by (intro collect_map) simp
  with p have run: "build_node (Suc n) d pid = Some (Inr (Node pid (title p) (map g (children p))))"
    by simp
  have ids: "map node_id (map g (children p)) = children p"
    using g by (simp add: map_idI)
  have "mirrors d (Node pid (title p) (map g (children p)))"
    using p g ids by simp
  moreover have "node_ids (Node pid (title p) (map g (children p))) = descendants d pid"
    using g by (simp add: descendants_unfold [OF d(1) p])
  ultimately show ?case using run by simp
qed

lemma all_children_range: "all_children d = Range (child_rel d)"
  by (auto simp: all_children_def child_rel_def)

lemma roots_spec: "root_ids d = filter (is_root d) (map fst d)"
  unfolding root_ids_def
  by (rule filter_cong) (auto simp: is_root_def all_children_range)

lemma roots_set: "set (root_ids d) = {pid. is_root d pid}"
  unfolding roots_spec by (auto simp: is_root_def)

lemma root_above:
  assumes "acyclic (child_rel d)"
  shows "pid \<in> fst ` set d \<Longrightarrow> \<exists>root. is_root d root \<and> (root, pid) \<in> (child_rel d)\<^sup>*"
proof -
  have "wf (child_rel d)"
    using finite_child_rel assms by (rule finite_acyclic_wf)
  then show "pid \<in> fst ` set d \<Longrightarrow> \<exists>root. is_root d root \<and> (root, pid) \<in> (child_rel d)\<^sup>*"
  proof (induction pid rule: wf_induct_rule)
    case (less pid)
    show ?case
    proof (cases "pid \<in> Range (child_rel d)")
      case False
      with less.prems have "is_root d pid" by (simp add: is_root_def)
      then show ?thesis by blast
    next
      case True
      then obtain q where q: "(q, pid) \<in> child_rel d" by blast
      then have "q \<in> fst ` set d" by (rule child_rel_keys)
      with less.IH [OF q] obtain root where "is_root d root" and "(root, q) \<in> (child_rel d)\<^sup>*"
        by blast
      with q show ?thesis by (blast intro: rtrancl_into_rtrancl)
    qed
  qed
qed

text \<open>
  C4. For a workspace with no dangling child and no cycle, \<^verbatim>\<open>get_page_tree\<close> returns a
  forest, with no \<^verbatim>\<open>KeyError\<close>, as soon as the recursion may go deep enough. Its trees
  are those of the roots (the keys that no page names as a child), in the order of the
  workspace; every node mirrors its page (the page's title, and the nodes of its children
  in the stored order); the pairs of a root and an id in its tree are the pairs of a root
  and a page reachable from it along the children links; every id in the forest is a key,
  and every key is in the forest.
\<close>

theorem get_page_tree_forest:
  assumes "distinct (map fst d)" and "no_dangling d" and "acyclic (child_rel d)"
  shows "\<exists>n. \<forall>m \<ge> n. \<exists>forest. get_page_tree m d = Some (Inr forest)
     \<and> map node_id forest = filter (is_root d) (map fst d)
     \<and> (\<forall>t \<in> set forest. mirrors d t)
     \<and> forest_reach forest = workspace_reach d
     \<and> (\<forall>t \<in> set forest. node_ids t \<subseteq> fst ` set d)
     \<and> (\<Union>t \<in> set forest. node_ids t) = fst ` set d"
proof -
  from assms(3) obtain r where r: "ranked r d"
    using acyclic_ranked by blast
  define bound where "bound = Suc (sum_list (map r (map fst d)))"
  have small: "r pid < bound" if "pid \<in> fst ` set d" for pid
  proof -
    from that have "r pid \<in> set (map r (map fst d))" by auto
    then have "r pid \<le> sum_list (map r (map fst d))" by (rule member_le_sum_list) simp
    then show ?thesis by (simp add: bound_def)
  qed
  have roots: "set (root_ids d) \<subseteq> fst ` set d"
    by (auto simp: root_ids_def)
  have "\<exists>forest. get_page_tree m d = Some (Inr forest)
     \<and> map node_id forest = filter (is_root d) (map fst d)
     \<and> (\<forall>t \<in> set forest. mirrors d t)
     \<and> forest_reach forest = workspace_reach d
     \<and> (\<forall>t \<in> set forest. node_ids t \<subseteq> fst ` set d)
     \<and> (\<Union>t \<in> set forest. node_ids t) = fst ` set d"
    if m: "bound \<le> m" for m
  proof -
    have "\<forall>pid \<in> set (root_ids d). \<exists>t. build_node m d pid = Some (Inr t) \<and> node_id t = pid
        \<and> mirrors d t \<and> node_ids t = descendants d pid"
    proof
      fix pid assume "pid \<in> set (root_ids d)"
      with roots have k: "pid \<in> fst ` set d" by blast
      with small m have "r pid < m" by fastforce
      with k show "\<exists>t. build_node m d pid = Some (Inr t) \<and> node_id t = pid
          \<and> mirrors d t \<and> node_ids t = descendants d pid"
        by (intro build_node_ranked [OF assms(1,2) r])
    qed
    then have "\<exists>g. \<forall>pid \<in> set (root_ids d). build_node m d pid = Some (Inr (g pid))
        \<and> node_id (g pid) = pid \<and> mirrors d (g pid) \<and> node_ids (g pid) = descendants d pid"
      by (rule bchoice)
    then obtain g where g: "\<forall>pid \<in> set (root_ids d). build_node m d pid = Some (Inr (g pid))
        \<and> node_id (g pid) = pid \<and> mirrors d (g pid) \<and> node_ids (g pid) = descendants d pid" ..
    let ?f = "map g (root_ids d)"
    from g have run: "get_page_tree m d = Some (Inr ?f)"
      unfolding get_page_tree_def by (intro collect_map) simp
    have "map node_id ?f = root_ids d"
      using g by (simp add: map_idI)
    then have ids: "map node_id ?f = filter (is_root d) (map fst d)"
      by (simp add: roots_spec)
    have mir: "\<forall>t \<in> set ?f. mirrors d t"
      using g by simp
    have gi: "node_id (g pid) = pid" and gd: "node_ids (g pid) = descendants d pid"
      if "pid \<in> set (root_ids d)" for pid
      using g that by simp_all
    have reach: "forest_reach ?f = workspace_reach d"
    proof (intro set_eqI iffI)
      fix e assume "e \<in> forest_reach ?f"
      then obtain pid x where "pid \<in> set (root_ids d)" and "e = (node_id (g pid), x)"
        and "x \<in> node_ids (g pid)"
        unfolding forest_reach_def by auto
      then show "e \<in> workspace_reach d"
        by (simp add: gi gd workspace_reach_def descendants_def roots_set)
    next
      fix e assume "e \<in> workspace_reach d"
      then obtain pid x where pid: "pid \<in> set (root_ids d)" and e: "e = (pid, x)"
        and "(pid, x) \<in> (child_rel d)\<^sup>*"
        unfolding workspace_reach_def by (auto simp: roots_set)
      then have "x \<in> node_ids (g pid)" by (simp add: gd descendants_def)
      moreover from pid have "g pid \<in> set ?f" by simp
      ultimately have "(node_id (g pid), x) \<in> forest_reach ?f"
        unfolding forest_reach_def by blast
      with pid e show "e \<in> forest_reach ?f" by (simp add: gi)
    qed
    have sub: "\<forall>t \<in> set ?f. node_ids t \<subseteq> fst ` set d"
    proof
      fix t assume "t \<in> set ?f"
      then obtain pid where pid: "pid \<in> set (root_ids d)" and t: "t = g pid" by auto
      from pid roots have "pid \<in> fst ` set d" by blast
      then have "descendants d pid \<subseteq> fst ` set d" by (rule descendants_keys [OF assms(2)])
      with pid t show "node_ids t \<subseteq> fst ` set d" by (simp add: gd)
    qed
    have all: "(\<Union>t \<in> set ?f. node_ids t) = fst ` set d"
    proof
      show "(\<Union>t \<in> set ?f. node_ids t) \<subseteq> fst ` set d" using sub by blast
      show "fst ` set d \<subseteq> (\<Union>t \<in> set ?f. node_ids t)"
      proof
        fix k assume "k \<in> fst ` set d"
        with root_above [OF assms(3)] obtain root where "is_root d root"
          and k: "(root, k) \<in> (child_rel d)\<^sup>*"
          by blast
        then have root: "root \<in> set (root_ids d)" by (simp add: roots_set)
        with k have "k \<in> node_ids (g root)" by (simp add: gd descendants_def)
        moreover from root have "g root \<in> set ?f" by simp
        ultimately show "k \<in> (\<Union>t \<in> set ?f. node_ids t)" by blast
      qed
    qed
    from run ids mir reach sub all show ?thesis by blast
  qed
  then show ?thesis by blast
qed

theorem get_page_tree_forest_witness:
  "distinct (map fst (DATA grove_state)) \<and> no_dangling (DATA grove_state)
   \<and> acyclic (child_rel (DATA grove_state))
   \<and> filter (is_root (DATA grove_state)) (map fst (DATA grove_state)) = [''r'', ''z'']
   \<and> (\<exists>n. \<forall>m \<ge> n. \<exists>forest. get_page_tree m (DATA grove_state) = Some (Inr forest)
         \<and> map node_id forest = [''r'', ''z'']
         \<and> forest_reach forest = workspace_reach (DATA grove_state)
         \<and> (\<Union>t \<in> set forest. node_ids t) = {''a'', ''r'', ''b'', ''z'', ''c''})
   \<and> get_page_tree 3 (DATA grove_state) =
       Some (Inr [Node ''r'' ''Home'' [Node ''a'' ''A'' [Node ''c'' ''C'' []], Node ''b'' ''B'' []],
                  Node ''z'' ''Z'' []])"
proof -
  let ?d = "DATA grove_state"
  have h1: "distinct (map fst ?d)" by (simp add: grove_state_def)
  have h2: "no_dangling ?d" by (simp add: grove_state_def no_dangling_def blank_page_def)
  have "ranked tree_rank ?d"
    by (simp add: grove_state_def ranked_def blank_page_def tree_rank_def)
  then have h3: "acyclic (child_rel ?d)" by (rule ranked_acyclic)
  have "root_ids ?d = [''r'', ''z'']"
    by (simp add: root_ids_def all_children_def grove_state_def blank_page_def)
  then have roots: "filter (is_root ?d) (map fst ?d) = [''r'', ''z'']"
    by (simp add: roots_spec)
  have keys: "fst ` set ?d = {''a'', ''r'', ''b'', ''z'', ''c''}"
    by (simp add: grove_state_def)
  have ev: "\<exists>n. \<forall>m \<ge> n. \<exists>forest. get_page_tree m ?d = Some (Inr forest)
         \<and> map node_id forest = [''r'', ''z'']
         \<and> forest_reach forest = workspace_reach ?d
         \<and> (\<Union>t \<in> set forest. node_ids t) = {''a'', ''r'', ''b'', ''z'', ''c''}"
    by (rule eventually_some [OF get_page_tree_forest [OF h1 h2 h3]]) (simp add: roots keys)
  have run: "get_page_tree 3 ?d =
       Some (Inr [Node ''r'' ''Home'' [Node ''a'' ''A'' [Node ''c'' ''C'' []], Node ''b'' ''B'' []],
                  Node ''z'' ''Z'' []])"
    by (simp add: numeral_3_eq_3 get_page_tree_def root_ids_def all_children_def grove_state_def
        blank_page_def)
  from h1 h2 h3 roots ev run show ?thesis by simp
qed

text \<open>With a dangling child, the lookup of \<^verbatim>\<open>build_node\<close> fails.\<close>

lemma get_page_tree_dangling:
  "get_page_tree 2 [(''p'', blank_page ''P'' [''x''])] = Some (Inl KeyError)"
  by (simp add: numeral_2_eq_2 get_page_tree_def root_ids_def all_children_def blank_page_def)

end
